theory Spec2Isabelle
  imports Main "HOL-Library.Sublist" "HOL-Library.Multiset" "HOL-Library.AList"
begin

section \<open>Text primitives of the Python runtime\<close>

text \<open>
  Python strings are sequences of code points.  A text is modelled as a \<^typ>\<open>string\<close>
  whose characters stand for the code points U+0000 to U+00FF; the character classes below
  are the ones Python uses on that range (\<open>str.isspace\<close>, the \<open>\s\<close> and \<open>\w\<close> classes of
  \<open>re\<close> on \<open>str\<close> patterns, and \<open>str.lower\<close>).
\<close>

definition is_space :: "char \<Rightarrow> bool" where
  "is_space c = (let n = (of_char c :: nat) in
     (9 \<le> n \<and> n \<le> 13) \<or> (28 \<le> n \<and> n \<le> 32) \<or> n = 133 \<or> n = 160)"

definition is_word :: "char \<Rightarrow> bool" where
  "is_word c = (let n = (of_char c :: nat) in
     (48 \<le> n \<and> n \<le> 57) \<or> (65 \<le> n \<and> n \<le> 90) \<or> n = 95 \<or> (97 \<le> n \<and> n \<le> 122) \<or>
     n = 170 \<or> n = 178 \<or> n = 179 \<or> n = 181 \<or> n = 185 \<or> n = 186 \<or>
     (188 \<le> n \<and> n \<le> 190) \<or> (192 \<le> n \<and> n \<le> 214) \<or> (216 \<le> n \<and> n \<le> 246) \<or> 248 \<le> n)"

definition lower :: "char \<Rightarrow> char" where
  "lower c = (let n = (of_char c :: nat) in
     if (65 \<le> n \<and> n \<le> 90) \<or> (192 \<le> n \<and> n \<le> 214) \<or> (216 \<le> n \<and> n \<le> 222)
     then char_of (n + 32) else c)"

text \<open>\<open>s.strip()\<close>: leading and trailing whitespace removed.\<close>

definition strip :: "string \<Rightarrow> string" where
  "strip s = rev (dropWhile is_space (rev (dropWhile is_space s)))"

text \<open>
  \<open>s.replace(old, new)\<close>: every non-overlapping occurrence of \<open>old\<close>, found from left to
  right, is replaced by \<open>new\<close>; the scan resumes after the occurrence, so the inserted text
  is not looked at again by the same call.  For an empty \<open>old\<close> Python inserts \<open>new\<close> before
  every character and at the end.
\<close>

function replace_scan :: "string \<Rightarrow> string \<Rightarrow> string \<Rightarrow> string" where
  "replace_scan old new [] = []"
| "replace_scan old new (c # cs) =
     (if old \<noteq> [] \<and> prefix old (c # cs)
      then new @ replace_scan old new (drop (length old) (c # cs))
      else c # replace_scan old new cs)"
  by pat_completeness auto
termination
  by (relation "measure (\<lambda>(old, new, s). length s)") auto

definition replace :: "string \<Rightarrow> string \<Rightarrow> string \<Rightarrow> string" where
  "replace old new s =
     (if old = [] then new @ concat (map (\<lambda>c. c # new) s) else replace_scan old new s)"

section \<open>Prompt builder\<close>

definition tok_card_modelo :: string where
  "tok_card_modelo = ''{Card_modelo}''"

definition tok_user_info :: string where
  "tok_user_info = ''{informacoes_fornecidas_pelo_usuario}''"

definition tok_card_para_analise :: string where
  "tok_card_para_analise = ''{Card_para_analise}''"

definition tok_informacoes_adicionais :: string where
  "tok_informacoes_adicionais = ''{informacoes_adicionais}''"

text \<open>
  \<open>_apply_common_replacements\<close>; \<open>self.additional_info or ""\<close> is the string itself, since
  the field always holds a string.
\<close>

definition apply_common_replacements :: "string \<Rightarrow> string \<Rightarrow> string" where
  "apply_common_replacements additional_info prompt =
     replace tok_informacoes_adicionais additional_info prompt"

text \<open>
  The three replace steps of a \<open>generate_*\<close> handler: \<open>user_tok\<close> is
  \<open>{informacoes_fornecidas_pelo_usuario}\<close> for creation and validation and
  \<open>{Card_para_analise}\<close> for analysis.
\<close>

definition build_prompt :: "string \<Rightarrow> string \<Rightarrow> string \<Rightarrow> string \<Rightarrow> string \<Rightarrow> string" where
  "build_prompt user_tok skeleton template user_text additional_info =
     (let prompt = replace tok_card_modelo template skeleton;
          prompt = replace user_tok user_text prompt
      in apply_common_replacements additional_info prompt)"

text \<open>
  The reading of the specification's ``single pass'': the skeleton is scanned once from left
  to right; where a token of the table starts, its value is emitted and the scan resumes
  after the token, so emitted values are never looked at again.
\<close>


function single_pass :: "(string \<times> string) list \<Rightarrow> string \<Rightarrow> string" where
  "single_pass reps [] = []"
| "single_pass reps (c # cs) =
     (case find (\<lambda>(t, v). t \<noteq> [] \<and> prefix t (c # cs)) reps of
        Some (t, v) \<Rightarrow> v @ single_pass reps (drop (length t) (c # cs))
      | None \<Rightarrow> c # single_pass reps cs)"
  by pat_completeness auto
termination
  by (relation "measure (\<lambda>(reps, s). length s)") (auto simp: find_Some_iff)

definition seq_replace :: "(string \<times> string) list \<Rightarrow> string \<Rightarrow> string" where
  "seq_replace reps s = foldl (\<lambda>s (t, v). replace t v s) s reps"

definition brace_tok :: "string \<Rightarrow> string" where
  "brace_tok n = CHR ''{'' # n @ ''}''"

definition brace_free :: "string \<Rightarrow> bool" where
  "brace_free n = (CHR ''{'' \<notin> set n \<and> CHR ''}'' \<notin> set n)"

fun closed_braces :: "bool \<Rightarrow> string \<Rightarrow> bool" where
  "closed_braces inside [] = (\<not> inside)"
| "closed_braces inside (c # cs) =
     (if c = CHR ''{'' then \<not> inside \<and> closed_braces True cs
      else if c = CHR ''}'' then closed_braces False cs
      else closed_braces inside cs)"

definition toks :: "(string \<times> string) list \<Rightarrow> (string \<times> string) list" where
  "toks ps = map (\<lambda>(n, v). (brace_tok n, v)) ps"

definition names_ok :: "(string \<times> string) list \<Rightarrow> bool" where
  "names_ok ps = list_all (\<lambda>(n, v). brace_free n) ps"

definition tok_name :: "string \<Rightarrow> string" where
  "tok_name t = butlast (tl t)"

section \<open>Exceptions\<close>

text \<open>
  The Python exceptions that the modelled code raises or lets through, with their messages
  where the program shows them.  The names of the specification's error taxonomy are given
  to the exceptions the code raises for them.
\<close>

datatype exn =
    FileNotFoundError string
  | ValueError string
  | RuntimeError string
  | KeyError string
  | IndexError string
  | TypeError string
  | AttributeError string
  | RequestException string
  | HTTPError string
  | JSONDecodeError string

definition msg_no_templates :: string where
  "msg_no_templates = ''Nenhum template encontrado em templates.txt. '' @
     ''Verifique se as tags <tipo>...</tipo> est'' @ [char_of (227 :: nat)] @ ''o corretas.''"

definition ParseError :: exn where
  "ParseError = ValueError msg_no_templates"

section \<open>Template store\<close>

text \<open>
  \<open>split_at_first pat s\<close> finds the first occurrence of \<open>pat\<close> in \<open>s\<close> and returns the text
  before it and the text after it.
\<close>

fun split_at_first :: "string \<Rightarrow> string \<Rightarrow> (string \<times> string) option" where
  "split_at_first pat [] = (if pat = [] then Some ([], []) else None)"
| "split_at_first pat (c # cs) =
     (if prefix pat (c # cs) then Some ([], drop (length pat) (c # cs))
      else map_option (\<lambda>(before, after). (c # before, after)) (split_at_first pat cs))"

definition close_tag :: "string \<Rightarrow> string" where
  "close_tag name = ''</'' @ name @ ''>''"

text \<open>
  A match of \<open><(\w+)>(.*?)</\1>\<close> (with \<open>re.DOTALL\<close>) anchored at the start of \<open>s\<close>: group 1,
  group 2 and the text after the match.  \<open>\w+\<close> is greedy and takes the whole run of word
  characters; a shorter run is followed by a word character and never by \<open>>\<close>, so
  backtracking into it cannot succeed.  \<open>.*?\<close> is lazy, so group 2 ends at the first
  closing tag of that name.
\<close>

definition match_block :: "string \<Rightarrow> (string \<times> string \<times> string) option" where
  "match_block s =
     (case s of
        [] \<Rightarrow> None
      | c # s1 \<Rightarrow>
          if c \<noteq> CHR ''<'' then None
          else let name = takeWhile is_word s1; s2 = dropWhile is_word s1 in
            if name = [] then None
            else (case s2 of
                    [] \<Rightarrow> None
                  | d # s3 \<Rightarrow>
                      if d \<noteq> CHR ''>'' then None
                      else (case split_at_first (close_tag name) s3 of
                              None \<Rightarrow> None
                            | Some (content, rest) \<Rightarrow> Some (name, content, rest))))"

lemma split_at_first_length:
  "split_at_first pat s = Some (before, after) \<Longrightarrow> length after \<le> length s"
  by (induction s arbitrary: before) (auto split: if_splits)

lemma match_block_length:
  assumes "match_block s = Some (name, content, rest)"
  shows "length rest < length s"
proof -
  from assms obtain s1 s3 where s: "s = CHR ''<'' # s1"
    and d: "dropWhile is_word s1 = CHR ''>'' # s3"
    and sp: "split_at_first (close_tag (takeWhile is_word s1)) s3 = Some (content, rest)"
    by (auto simp: match_block_def Let_def split: list.splits if_splits option.splits)
  have "length rest \<le> length s3" using sp by (rule split_at_first_length)
  also have "length s3 < length (dropWhile is_word s1)" using d by simp
  also have "\<dots> \<le> length s1" by (rule length_dropWhile_le)
  finally show ?thesis using s by simp
qed

text \<open>
  \<open>pattern.finditer(text)\<close>: the matches from left to right, without overlap; after a match
  the search resumes at its end, and where no match starts the search moves on by one
  character.
\<close>

function finditer :: "string \<Rightarrow> (string \<times> string) list" where
  "finditer [] = []"
| "finditer (c # cs) =
     (case match_block (c # cs) of
        Some (name, content, rest) \<Rightarrow> (name, content) # finditer rest
      | None \<Rightarrow> finditer cs)"
  by pat_completeness auto
termination
  by (relation "measure length") (auto dest: match_block_length)

text \<open>
  \<open>load_templates\<close>; \<open>files\<close> gives the content of the file at a path, \<open>None\<close> when the
  file does not exist.  The dictionary is an association list in insertion order: assigning
  to a key that is present replaces its value in place, as a Python \<open>dict\<close> does.
\<close>

definition add_template :: "(string \<times> string) list \<Rightarrow> string \<times> string \<Rightarrow> (string \<times> string) list" where
  "add_template templates m =
     (let tag_name = strip (fst m); content = strip (snd m) in
      if tag_name \<noteq> [] then AList.update tag_name content templates else templates)"

definition load_templates ::
  "(string \<Rightarrow> string option) \<Rightarrow> string \<Rightarrow> exn + (string \<times> string) list" where
  "load_templates files path =
     (case files path of
        None \<Rightarrow> Inl (FileNotFoundError (''Arquivo de templates n'' @ [char_of (227 :: nat)] @
                 ''o encontrado: '' @ path))
      | Some text \<Rightarrow>
          let templates = foldl add_template [] (finditer text) in
          if templates = [] then Inl ParseError else Inr templates)"

text \<open>
  The text of a well-formed block with tag name \<open>n\<close> and inner text \<open>c\<close>, and a well-formed
  tag name: a non-empty run of word characters.
\<close>

definition block_text :: "string \<Rightarrow> string \<Rightarrow> string" where
  "block_text n c = ''<'' @ n @ ''>'' @ c @ close_tag n"

definition word_name :: "string \<Rightarrow> bool" where
  "word_name n = (n \<noteq> [] \<and> list_all is_word n)"

text \<open>
  The blocks that a scan of the text from left to right finds, in the words of the
  specification: the next block is the well-formed block that starts first, its inner text
  ends at the first closing tag of its name, and the scan goes on after that closing tag, so
  a block that lies inside an earlier one or overlaps it is not found.
\<close>

inductive scan_blocks :: "string \<Rightarrow> (string \<times> string) list \<Rightarrow> bool" where
  scan_done:
    "\<not> (\<exists>pre n c post. s = pre @ block_text n c @ post \<and> word_name n) \<Longrightarrow> scan_blocks s []"
| scan_found:
    "s = pre @ block_text n c @ post \<Longrightarrow> word_name n \<Longrightarrow>
     (\<forall>pre' n' c' post'. s = pre' @ block_text n' c' @ post' \<and> word_name n' \<longrightarrow>
        length pre \<le> length pre') \<Longrightarrow>
     (\<forall>u w. c @ close_tag n @ post = u @ close_tag n @ w \<longrightarrow> length c \<le> length u) \<Longrightarrow>
     scan_blocks post ms \<Longrightarrow> scan_blocks s ((n, c) # ms)"

section \<open>Response extractor\<close>

text \<open>
  \<open>_extract_tag_content\<close> builds the pattern \<open><\s*TAG\s*>(.*?)</\s*TAG\s*>\<close> by inserting
  \<open>tag_name\<close> into it as it is, and searches it with \<open>re.DOTALL | re.IGNORECASE\<close>.  The
  inserted name is therefore read as a piece of a regular expression.  The model covers the
  names in which every character is an ordinary character, matched literally without regard
  to case, or the dot, which under \<open>re.DOTALL\<close> matches any character.
\<close>

datatype atom = Lit char | AnyChar

definition re_special :: "char \<Rightarrow> bool" where
  "re_special c = (c \<in> set ''.^$*+?{}[]|()'' \<or> c = CHR 0x5C)"

definition tag_atoms :: "string \<Rightarrow> atom list option" where
  "tag_atoms tag_name =
     (if \<exists>c \<in> set tag_name. re_special c \<and> c \<noteq> CHR ''.'' then None
      else Some (map (\<lambda>c. if c = CHR ''.'' then AnyChar else Lit c) tag_name))"

fun atom_matches :: "atom \<Rightarrow> char \<Rightarrow> bool" where
  "atom_matches (Lit a) c = (lower c = lower a)"
| "atom_matches AnyChar c = True"

text \<open>The name matched at the start of a text; the result is the text after it.\<close>

fun match_atoms :: "atom list \<Rightarrow> string \<Rightarrow> string option" where
  "match_atoms [] s = Some s"
| "match_atoms (a # as) [] = None"
| "match_atoms (a # as) (c # cs) = (if atom_matches a c then match_atoms as cs else None)"

text \<open>
  \<open>\s*\<close> is greedy and gives characters back when the rest of the pattern fails: the texts
  that may follow it, in the order in which the matcher tries them (longest run of
  whitespace first).
\<close>

fun after_spaces :: "string \<Rightarrow> string list" where
  "after_spaces [] = [[]]"
| "after_spaces (c # cs) = (if is_space c then after_spaces cs @ [c # cs] else [c # cs])"

text \<open>\<open>\s*TAG\s*>\<close> at the start of a text: the texts after the \<open>>\<close>, in the matcher's order.\<close>

definition match_name_gt :: "atom list \<Rightarrow> string \<Rightarrow> string list" where
  "match_name_gt tag s =
     concat (map (\<lambda>s2. case match_atoms tag s2 of
                           None \<Rightarrow> []
                         | Some s3 \<Rightarrow>
                             concat (map (\<lambda>s4. case s4 of
                                                  [] \<Rightarrow> []
                                                | d # s5 \<Rightarrow> if d = CHR ''>'' then [s5] else [])
                                         (after_spaces s3)))
                 (after_spaces s))"

definition match_open :: "atom list \<Rightarrow> string \<Rightarrow> string list" where
  "match_open tag s =
     (case s of [] \<Rightarrow> [] | c # s1 \<Rightarrow> if c = CHR ''<'' then match_name_gt tag s1 else [])"

definition match_close :: "atom list \<Rightarrow> string \<Rightarrow> string list" where
  "match_close tag s =
     (case s of
        c # d # s1 \<Rightarrow> if c = CHR ''<'' \<and> d = CHR ''/'' then match_name_gt tag s1 else []
      | _ \<Rightarrow> [])"

text \<open>
  \<open>(.*?)\<close> followed by the closing tag: the lazy group takes the shortest text after which the
  closing tag matches.
\<close>

fun lazy_content :: "atom list \<Rightarrow> string \<Rightarrow> string option" where
  "lazy_content tag [] = (if match_close tag [] \<noteq> [] then Some [] else None)"
| "lazy_content tag (c # cs) =
     (if match_close tag (c # cs) \<noteq> [] then Some []
      else map_option (\<lambda>g. c # g) (lazy_content tag cs))"

text \<open>
  A match of the whole pattern anchored at the start of a text: the first way of matching the
  opening tag after which the group and the closing tag match; the result is group 1.
\<close>

definition match_tag_at :: "atom list \<Rightarrow> string \<Rightarrow> string option" where
  "match_tag_at tag s =
     (case List.map_filter (lazy_content tag) (match_open tag s) of
        [] \<Rightarrow> None
      | g # _ \<Rightarrow> Some g)"

text \<open>\<open>re.search\<close>: the match at the leftmost position where one exists.\<close>

fun search_tag :: "atom list \<Rightarrow> string \<Rightarrow> string option" where
  "search_tag tag [] = match_tag_at tag []"
| "search_tag tag (c # cs) =
     (case match_tag_at tag (c # cs) of Some g \<Rightarrow> Some g | None \<Rightarrow> search_tag tag cs)"

text \<open>
  \<open>_extract_tag_content\<close>.  \<open>re_other text tag_name\<close> stands for what the function does when
  \<open>tag_name\<close> holds a regular-expression operator other than the dot, where the pattern is
  outside the part of \<open>re\<close> modelled here (it may not compile, or mean something else).
\<close>

definition extract_tag_content ::
  "(string \<Rightarrow> string \<Rightarrow> exn + string) \<Rightarrow> string \<Rightarrow> string \<Rightarrow> exn + string" where
  "extract_tag_content re_other text tag_name =
     (case tag_atoms tag_name of
        None \<Rightarrow> re_other text tag_name
      | Some tag \<Rightarrow>
          (case search_tag tag text of
             Some g \<Rightarrow> Inr (strip g)
           | None \<Rightarrow> Inr (strip text)))"

text \<open>
  The words of the specification for a tag: \<open><\<close>, optional whitespace, the name in any letter
  case, optional whitespace, \<open>>\<close>; the closing tag begins with \<open></\<close>.
\<close>

definition tag_like :: "string \<Rightarrow> string \<Rightarrow> bool" where
  "tag_like tag_name nm = (map lower nm = map lower tag_name)"

definition opening_tag :: "string \<Rightarrow> string \<Rightarrow> bool" where
  "opening_tag tag_name u =
     (\<exists>ws1 nm ws2. u = ''<'' @ ws1 @ nm @ ws2 @ ''>'' \<and>
        list_all is_space ws1 \<and> list_all is_space ws2 \<and> tag_like tag_name nm)"

definition closing_tag :: "string \<Rightarrow> string \<Rightarrow> bool" where
  "closing_tag tag_name u =
     (\<exists>ws1 nm ws2. u = ''</'' @ ws1 @ nm @ ws2 @ ''>'' \<and>
        list_all is_space ws1 \<and> list_all is_space ws2 \<and> tag_like tag_name nm)"

section \<open>LLM client\<close>

text \<open>
  The value that \<open>response.json()\<close> returns: the Python form of a JSON document.  An object is
  a dictionary with string keys, kept as an association list with distinct keys.
\<close>

datatype pyval =
    PNone
  | PBool bool
  | PInt int
  | PFloat string
  | PStr string
  | PList "pyval list"
  | PDict "(string \<times> pyval) list"

fun type_name :: "pyval \<Rightarrow> string" where
  "type_name PNone = ''NoneType''"
| "type_name (PBool b) = ''bool''"
| "type_name (PInt i) = ''int''"
| "type_name (PFloat f) = ''float''"
| "type_name (PStr s) = ''str''"
| "type_name (PList l) = ''list''"
| "type_name (PDict d) = ''dict''"

definition not_subscriptable :: "pyval \<Rightarrow> exn" where
  "not_subscriptable v = TypeError ([CHR 0x27] @ type_name v @ [CHR 0x27] @ '' object is not subscriptable'')"

text \<open>\<open>v[key]\<close> with a string key, and \<open>v[0]\<close>.\<close>

fun subscript_key :: "pyval \<Rightarrow> string \<Rightarrow> exn + pyval" where
  "subscript_key (PDict d) key =
     (case map_of d key of None \<Rightarrow> Inl (KeyError key) | Some v \<Rightarrow> Inr v)"
| "subscript_key (PList l) key = Inl (TypeError ''list indices must be integers or slices, not str'')"
| "subscript_key (PStr s) key = Inl (TypeError ''string indices must be integers'')"
| "subscript_key v key = Inl (not_subscriptable v)"

fun subscript_0 :: "pyval \<Rightarrow> exn + pyval" where
  "subscript_0 (PList []) = Inl (IndexError ''list index out of range'')"
| "subscript_0 (PList (v # vs)) = Inr v"
| "subscript_0 (PStr []) = Inl (IndexError ''string index out of range'')"
| "subscript_0 (PStr (c # cs)) = Inr (PStr [c])"
| "subscript_0 (PDict d) = Inl (KeyError ''0'')"
| "subscript_0 v = Inl (not_subscriptable v)"

text \<open>\<open>v.strip()\<close>: only a string has the method.\<close>

fun method_strip :: "pyval \<Rightarrow> exn + string" where
  "method_strip (PStr s) = Inr (strip s)"
| "method_strip v =
     Inl (AttributeError ([CHR 0x27] @ type_name v @ [CHR 0x27] @ '' object has no attribute '' @
                          [CHR 0x27] @ ''strip'' @ [CHR 0x27]))"

text \<open>
  What \<open>requests.post\<close> does with the one request: it raises (no connection, time-out, ...), or
  it returns a response with a status code and a body; \<open>json_body\<close> is \<open>None\<close> when the body
  is not a JSON document.
\<close>

record response =
  status_code :: nat
  json_body :: "pyval option"

datatype http_result = Raises exn | Returns response

record request =
  req_url :: string
  req_authorization :: string
  req_model :: string
  req_content :: string
  req_timeout :: nat

definition msg_no_api_key :: string where
  "msg_no_api_key = ''Chave de API do OpenRouter n'' @ [CHR 0xE3] @ ''o configurada. '' @
     ''Defina OPENROUTER_API_KEY ou API_KEY no arquivo .env.''"

definition msg_invalid_response :: string where
  "msg_invalid_response = ''Resposta inv'' @ [CHR 0xE1] @ ''lida do modelo OpenRouter.''"

definition ConfigurationError :: exn where
  "ConfigurationError = RuntimeError msg_no_api_key"

definition ProtocolError :: exn where
  "ProtocolError = RuntimeError msg_invalid_response"

text \<open>\<open>os.getenv(a) or os.getenv(b)\<close>: an unset variable and an empty one both count as false.\<close>

definition getenv_or :: "(string \<Rightarrow> string option) \<Rightarrow> string \<Rightarrow> string \<Rightarrow> string option" where
  "getenv_or env a b = (case env a of None \<Rightarrow> env b | Some v \<Rightarrow> if v = [] then env b else Some v)"

text \<open>\<open>response.raise_for_status()\<close> and \<open>response.json()\<close>.\<close>

definition raise_for_status :: "response \<Rightarrow> exn + unit" where
  "raise_for_status r =
     (if 400 \<le> status_code r \<and> status_code r < 600 then Inl (HTTPError ''Client or Server Error'')
      else Inr ())"

definition response_json :: "response \<Rightarrow> exn + pyval" where
  "response_json r =
     (case json_body r of None \<Rightarrow> Inl (JSONDecodeError ''Expecting value'') | Some v \<Rightarrow> Inr v)"

text \<open>
  \<open>data["choices"][0]["message"]["content"]\<close> inside \<open>try ... except (KeyError, IndexError)\<close>:
  those two exceptions become the \<open>RuntimeError\<close> of an invalid response, any other one
  passes through.
\<close>

definition read_content :: "pyval \<Rightarrow> exn + pyval" where
  "read_content data =
     (case subscript_key data ''choices'' of Inl e \<Rightarrow> Inl e | Inr choices \<Rightarrow>
      case subscript_0 choices of Inl e \<Rightarrow> Inl e | Inr choice \<Rightarrow>
      case subscript_key choice ''message'' of Inl e \<Rightarrow> Inl e | Inr message \<Rightarrow>
      subscript_key message ''content'')"

fun except_key_index :: "exn + pyval \<Rightarrow> exn + pyval" where
  "except_key_index (Inl (KeyError k)) = Inl ProtocolError"
| "except_key_index (Inl (IndexError m)) = Inl ProtocolError"
| "except_key_index r = r"

text \<open>
  \<open>_call_llm\<close>.  \<open>env\<close> is the process environment and \<open>net\<close> what the network does with a
  request.  The result comes with the list of the requests that were sent.
\<close>

definition call_llm ::
  "(string \<Rightarrow> string option) \<Rightarrow> (request \<Rightarrow> http_result) \<Rightarrow> string \<Rightarrow> string
   \<Rightarrow> (exn + string) \<times> request list" where
  "call_llm env net prompt model_name =
     (case getenv_or env ''OPENROUTER_API_KEY'' ''API_KEY'' of
        None \<Rightarrow> (Inl ConfigurationError, [])
      | Some api_key \<Rightarrow>
          if api_key = [] then (Inl ConfigurationError, [])
          else
            let req = \<lparr>req_url = ''https://openrouter.ai/api/v1/chat/completions'',
                       req_authorization = ''Bearer '' @ api_key,
                       req_model = model_name, req_content = prompt, req_timeout = 60\<rparr>
            in (case net req of
                  Raises e \<Rightarrow> Inl e
                | Returns response \<Rightarrow>
                    (case raise_for_status response of Inl e \<Rightarrow> Inl e | Inr u \<Rightarrow>
                     case response_json response of Inl e \<Rightarrow> Inl e | Inr data \<Rightarrow>
                     case except_key_index (read_content data) of Inl e \<Rightarrow> Inl e | Inr text \<Rightarrow>
                     method_strip text),
                [req]))"

section \<open>The application: state, task runner and controllers\<close>

text \<open>
  \<open>CardPromptApp\<close>.  The three output \<open>tk.Text\<close> widgets are named by an enumeration
  and their contents kept in one field indexed by it.  Message boxes are recorded
  in the order in which they are shown.  A started worker thread is a \<open>job\<close> in \<open>workers\<close>
  until its call returns; the \<open>on_done\<close> closure that it schedules with \<open>self.after(0, ...)\<close>
  is a \<open>completion\<close> in \<open>after_queue\<close> until the event loop runs it.  The fields \<open>next_task\<close>
  and \<open>completed\<close> and the task numbers are bookkeeping of the model: they number the
  accepted submissions and list the tasks whose \<open>on_done\<close> has run; the program does not
  read them.
\<close>

datatype widget = Output_info | Output_create | Output_analyse

datatype dialog =
    ShowInfo string string
  | ShowWarning string string
  | ShowError string string

record job =
  job_prompt :: string
  job_model :: string
  job_tag :: string
  job_widget :: widget
  job_task :: nat

record completion =
  error :: "string option"
  llm_clean :: string
  done_widget :: widget
  done_task :: nat

record app =
  llm_running :: bool
  templates :: "(string \<times> string) list"
  additional_info :: string
  validation_model :: string
  creation_model :: string
  analisys_model :: string
  creation_prompt :: string
  analisys_prompt :: string
  info_validation_prompt :: string
  card_type_info_var :: string
  card_type_var :: string
  card_type_analyse_var :: string
  user_info_validation_text :: string
  user_input_text :: string
  card_to_analyse_text :: string
  output_text :: "widget \<Rightarrow> string"
  status_var :: string
  buttons_disabled :: bool
  progress_running :: bool
  clipboard :: string
  dialogs :: "dialog list"
  workers :: "job list"
  after_queue :: "completion list"
  next_task :: nat
  completed :: "nat list"

text \<open>\<open>widget.get("1.0", tk.END)\<close>: Tk returns the content followed by a newline.\<close>

definition text_get :: "string \<Rightarrow> string" where
  "text_get content = content @ [CHR 0x0A]"

text \<open>
  \<open>_set_busy\<close>: the status line, the state of the three generate buttons, and the timer with
  the progress bar.
\<close>

definition set_busy :: "bool \<Rightarrow> string option \<Rightarrow> app \<Rightarrow> app" where
  "set_busy busy message s =
     (let s = (case message of None \<Rightarrow> s | Some m \<Rightarrow> s\<lparr>status_var := m\<rparr>)
      in s\<lparr>buttons_disabled := busy, progress_running := busy\<rparr>)"

definition busy_notice :: dialog where
  "busy_notice = ShowInfo ''Aguarde''
     (''J'' @ [CHR 0xE1] @ '' existe uma chamada ao LLM em andamento. Aguarde a finaliza'' @
      [CHR 0xE7, CHR 0xE3] @ ''o.'')"

text \<open>\<open>_run_llm_async\<close>, up to the start of the worker thread.\<close>

definition run_llm_async :: "string \<Rightarrow> string \<Rightarrow> string \<Rightarrow> widget \<Rightarrow> string \<Rightarrow> app \<Rightarrow> app" where
  "run_llm_async prompt model_name tag_name output_widget busy_message s =
     (if llm_running s then s\<lparr>dialogs := dialogs s @ [busy_notice]\<rparr>
      else
        let s = s\<lparr>output_text := (output_text s)(output_widget := [])\<rparr>;
            s = s\<lparr>llm_running := True\<rparr>;
            s = set_busy True (Some busy_message) s
        in s\<lparr>workers := workers s @
                 [\<lparr>job_prompt = prompt, job_model = model_name, job_tag = tag_name,
                   job_widget = output_widget, job_task = next_task s\<rparr>],
              next_task := Suc (next_task s)\<rparr>)"

text \<open>\<open>str(exc)\<close>: the message; for a \<open>KeyError\<close> the key in quotes.\<close>

fun exn_str :: "exn \<Rightarrow> string" where
  "exn_str (FileNotFoundError m) = m"
| "exn_str (ValueError m) = m"
| "exn_str (RuntimeError m) = m"
| "exn_str (KeyError k) = [CHR 0x27] @ k @ [CHR 0x27]"
| "exn_str (IndexError m) = m"
| "exn_str (TypeError m) = m"
| "exn_str (AttributeError m) = m"
| "exn_str (RequestException m) = m"
| "exn_str (HTTPError m) = m"
| "exn_str (JSONDecodeError m) = m"

text \<open>
  The body of \<open>worker\<close>: the call and the extraction inside \<open>try ... except Exception\<close>, then
  the \<open>on_done\<close> closure with the values it captures.  The requests sent come with it.
\<close>

definition worker ::
  "(string \<Rightarrow> string option) \<Rightarrow> (string \<Rightarrow> string \<Rightarrow> exn + string) \<Rightarrow> (request \<Rightarrow> http_result)
   \<Rightarrow> job \<Rightarrow> completion \<times> request list" where
  "worker env re_other net j =
     (let (r, sent) = call_llm env net (job_prompt j) (job_model j);
          r = (case r of
                 Inl exc \<Rightarrow> Inl exc
               | Inr llm_raw \<Rightarrow> extract_tag_content re_other llm_raw (job_tag j))
      in (case r of
            Inl exc \<Rightarrow> \<lparr>error = Some (exn_str exc), llm_clean = [],
                        done_widget = job_widget j, done_task = job_task j\<rparr>
          | Inr clean \<Rightarrow> \<lparr>error = None, llm_clean = clean,
                          done_widget = job_widget j, done_task = job_task j\<rparr>,
          sent))"

text \<open>\<open>if error:\<close> tests the truth value of a \<open>str | None\<close>: \<open>None\<close> and the empty string are false.\<close>

definition truthy :: "string option \<Rightarrow> bool" where
  "truthy e = (case e of None \<Rightarrow> False | Some m \<Rightarrow> m \<noteq> [])"

definition on_done :: "completion \<Rightarrow> app \<Rightarrow> app" where
  "on_done c s =
     (let s = (if truthy (error c)
               then s\<lparr>dialogs := dialogs s @ [ShowError ''Erro ao chamar LLM'' (the (error c))]\<rparr>
               else s\<lparr>output_text := (output_text s)(done_widget c := llm_clean c)\<rparr>);
          s = set_busy False (Some ''Pronto.'') s
      in s\<lparr>llm_running := False, completed := completed s @ [done_task c]\<rparr>)"

text \<open>\<open>_get_template_for_type\<close>.\<close>

definition get_template_for_type :: "(string \<times> string) list \<Rightarrow> string \<Rightarrow> string option" where
  "get_template_for_type tpls card_type =
     (let card_type = strip card_type in
      if card_type = [] then None else map_of tpls card_type)"

definition no_type_notice :: dialog where
  "no_type_notice = ShowWarning (''Tipo n'' @ [CHR 0xE3] @ ''o selecionado'')
     ''Selecione um tipo de card na lista.''"

definition no_template_notice :: "string \<Rightarrow> dialog" where
  "no_template_notice card_type = ShowError (''Template n'' @ [CHR 0xE3] @ ''o encontrado'')
     (''N'' @ [CHR 0xE3] @ ''o foi poss'' @ [CHR 0xED] @
      ''vel encontrar o template para o tipo: '' @ card_type)"

text \<open>
  The three \<open>generate_*\<close> handlers have the same body; they differ in the combobox variable
  and the input widget they read, the skeleton, the second token, the model, the result tag,
  the output widget and the status message, which are the parameters of \<open>controller\<close>.
  \<open>if not template\<close> is true for a missing template and for an empty one.
\<close>

definition controller ::
  "string \<Rightarrow> string \<Rightarrow> string \<Rightarrow> string \<Rightarrow> string \<Rightarrow> string \<Rightarrow> widget \<Rightarrow> string \<Rightarrow> app \<Rightarrow> app" where
  "controller type_var input skeleton user_tok model_name tag_name output_widget busy_message s =
     (let card_type = strip type_var in
      if card_type = [] then s\<lparr>dialogs := dialogs s @ [no_type_notice]\<rparr>
      else
        (case get_template_for_type (templates s) card_type of
           None \<Rightarrow> s\<lparr>dialogs := dialogs s @ [no_template_notice card_type]\<rparr>
         | Some template \<Rightarrow>
             if template = [] then s\<lparr>dialogs := dialogs s @ [no_template_notice card_type]\<rparr>
             else
               let user_info = strip (text_get input);
                   prompt = build_prompt user_tok skeleton template user_info (additional_info s)
               in run_llm_async prompt model_name tag_name output_widget busy_message s))"

definition generate_creation_prompt :: "app \<Rightarrow> app" where
  "generate_creation_prompt s =
     controller (card_type_var s) (user_input_text s) (creation_prompt s) tok_user_info
       (creation_model s) ''card'' Output_create ''Gerando card com o LLM...'' s"

definition generate_info_validation_prompt :: "app \<Rightarrow> app" where
  "generate_info_validation_prompt s =
     controller (card_type_info_var s) (user_info_validation_text s) (info_validation_prompt s)
       tok_user_info (validation_model s) ''info_validacao'' Output_info
       (''Analisando informa'' @ [CHR 0xE7, CHR 0xF5] @ ''es com o LLM...'') s"

definition generate_analisys_prompt :: "app \<Rightarrow> app" where
  "generate_analisys_prompt s =
     controller (card_type_analyse_var s) (card_to_analyse_text s) (analisys_prompt s)
       tok_card_para_analise (analisys_model s) ''analise'' Output_analyse
       ''Analisando card com o LLM...'' s"

text \<open>\<open>_copy_to_clipboard\<close> and its three callers.\<close>

definition nothing_to_copy_notice :: dialog where
  "nothing_to_copy_notice = ShowInfo ''Nada para copiar''
     (''Gere um resultado com o LLM antes de copiar para a '' @ [CHR 0xE1] @
      ''rea de transfer'' @ [CHR 0xEA] @ ''ncia.'')"

definition copied_notice :: "string \<Rightarrow> dialog" where
  "copied_notice titulo = ShowInfo ''Copiado''
     (titulo @ '' copiado para a '' @ [CHR 0xE1] @ ''rea de transfer'' @ [CHR 0xEA] @ ''ncia.'')"

definition copy_to_clipboard :: "widget \<Rightarrow> string \<Rightarrow> app \<Rightarrow> app" where
  "copy_to_clipboard text_widget titulo s =
     (let prompt = strip (text_get (output_text s text_widget)) in
      if prompt = [] then s\<lparr>dialogs := dialogs s @ [nothing_to_copy_notice]\<rparr>
      else s\<lparr>clipboard := prompt, dialogs := dialogs s @ [copied_notice titulo]\<rparr>)"

definition copy_prompt_create :: "app \<Rightarrow> app" where
  "copy_prompt_create = copy_to_clipboard Output_create ''Card''"

definition copy_prompt_analyse :: "app \<Rightarrow> app" where
  "copy_prompt_analyse = copy_to_clipboard Output_analyse (''An'' @ [CHR 0xE1] @ ''lise do card'')"

definition copy_prompt_info :: "app \<Rightarrow> app" where
  "copy_prompt_info = copy_to_clipboard Output_info
     (''An'' @ [CHR 0xE1] @ ''lise de informa'' @ [CHR 0xE7, CHR 0xF5] @ ''es'')"

text \<open>
  \<open>load_additional_info\<close>: \<open>picked\<close> is the path chosen in the file dialog (empty when the
  dialog is cancelled) and \<open>read\<close> the outcome of reading that file.
\<close>

definition load_additional_info :: "string \<Rightarrow> exn + string \<Rightarrow> app \<Rightarrow> app" where
  "load_additional_info picked read s =
     (if picked = [] then s
      else (case read of
              Inr content \<Rightarrow> s\<lparr>additional_info := strip content\<rparr>
            | Inl exc \<Rightarrow>
                s\<lparr>dialogs := dialogs s @
                   [ShowError (''Erro ao carregar arquivo de informa'' @ [CHR 0xE7, CHR 0xF5] @
                               ''es de projeto'') (exn_str exc)]\<rparr>))"

text \<open>
  What can happen to the running application: the user acts on a widget, a worker thread
  finishes its call (with what the network did), or the event loop runs the next scheduled
  \<open>on_done\<close>.  The user can also type into the output widgets, which are ordinary text widgets.
\<close>

datatype event =
    Generate_creation
  | Generate_info_validation
  | Generate_analisys
  | Copy_create
  | Copy_analyse
  | Copy_info
  | Load_info string "exn + string"
  | Select_type widget string
  | Edit_input widget string
  | Edit_output widget string
  | Worker_returns nat "request \<Rightarrow> http_result"
  | Run_scheduled

fun select_type :: "widget \<Rightarrow> string \<Rightarrow> app \<Rightarrow> app" where
  "select_type Output_info v s = s\<lparr>card_type_info_var := v\<rparr>"
| "select_type Output_create v s = s\<lparr>card_type_var := v\<rparr>"
| "select_type Output_analyse v s = s\<lparr>card_type_analyse_var := v\<rparr>"

fun edit_input :: "widget \<Rightarrow> string \<Rightarrow> app \<Rightarrow> app" where
  "edit_input Output_info v s = s\<lparr>user_info_validation_text := v\<rparr>"
| "edit_input Output_create v s = s\<lparr>user_input_text := v\<rparr>"
| "edit_input Output_analyse v s = s\<lparr>card_to_analyse_text := v\<rparr>"

definition worker_returns ::
  "(string \<Rightarrow> string option) \<Rightarrow> (string \<Rightarrow> string \<Rightarrow> exn + string) \<Rightarrow> nat
   \<Rightarrow> (request \<Rightarrow> http_result) \<Rightarrow> app \<Rightarrow> app" where
  "worker_returns env re_other i net s =
     (if i < length (workers s)
      then s\<lparr>workers := take i (workers s) @ drop (Suc i) (workers s),
             after_queue := after_queue s @ [fst (worker env re_other net (workers s ! i))]\<rparr>
      else s)"

definition run_scheduled :: "app \<Rightarrow> app" where
  "run_scheduled s =
     (case after_queue s of
        [] \<Rightarrow> s
      | c # cs \<Rightarrow> on_done c (s\<lparr>after_queue := cs\<rparr>))"

fun step ::
  "(string \<Rightarrow> string option) \<Rightarrow> (string \<Rightarrow> string \<Rightarrow> exn + string) \<Rightarrow> event \<Rightarrow> app \<Rightarrow> app" where
  "step env re_other Generate_creation s = generate_creation_prompt s"
| "step env re_other Generate_info_validation s = generate_info_validation_prompt s"
| "step env re_other Generate_analisys s = generate_analisys_prompt s"
| "step env re_other Copy_create s = copy_prompt_create s"
| "step env re_other Copy_analyse s = copy_prompt_analyse s"
| "step env re_other Copy_info s = copy_prompt_info s"
| "step env re_other (Load_info picked read) s = load_additional_info picked read s"
| "step env re_other (Select_type w v) s = select_type w v s"
| "step env re_other (Edit_input w v) s = edit_input w v s"
| "step env re_other (Edit_output w v) s = s\<lparr>output_text := (output_text s)(w := v)\<rparr>"
| "step env re_other (Worker_returns i net) s = worker_returns env re_other i net s"
| "step env re_other Run_scheduled s = run_scheduled s"

text \<open>The state that \<open>__init__\<close> leaves: nothing running, nothing shown, nothing loaded.\<close>

definition initial :: "app \<Rightarrow> bool" where
  "initial s = (\<not> llm_running s \<and> additional_info s = [] \<and> workers s = [] \<and>
     after_queue s = [] \<and> dialogs s = [] \<and> next_task s = 0 \<and> completed s = [] \<and>
     (\<forall>w. output_text s w = []) \<and> \<not> buttons_disabled s \<and> \<not> progress_running s \<and>
     status_var s = ''Pronto.'')"

inductive reachable ::
  "(string \<Rightarrow> string option) \<Rightarrow> (string \<Rightarrow> string \<Rightarrow> exn + string) \<Rightarrow> app \<Rightarrow> bool"
  for env :: "string \<Rightarrow> string option" and re_other :: "string \<Rightarrow> string \<Rightarrow> exn + string" where
  reach_init: "initial s \<Longrightarrow> reachable env re_other s"
| reach_step: "reachable env re_other s \<Longrightarrow> reachable env re_other (step env re_other e s)"

text \<open>
  A concrete application for the examples: one template, the three skeletons, the first
  card type selected in each tab (as \<open>combobox.current(0)\<close> leaves it), and an environment
  that holds an API key.
\<close>

definition example_app :: app where
  "example_app =
     \<lparr>llm_running = False,
      templates = [(''bug'', ''Title:'')],
      additional_info = [],
      validation_model = ''model-v'',
      creation_model = ''model-c'',
      analisys_model = ''model-a'',
      creation_prompt = ''{Card_modelo}|{informacoes_fornecidas_pelo_usuario}|{informacoes_adicionais}'',
      analisys_prompt = ''{Card_modelo}|{Card_para_analise}|{informacoes_adicionais}'',
      info_validation_prompt = ''{Card_modelo}|{informacoes_fornecidas_pelo_usuario}'',
      card_type_info_var = ''bug'',
      card_type_var = ''bug'',
      card_type_analyse_var = ''bug'',
      user_info_validation_text = [],
      user_input_text = [],
      card_to_analyse_text = [],
      output_text = (\<lambda>w. []),
      status_var = ''Pronto.'',
      buttons_disabled = False,
      progress_running = False,
      clipboard = [],
      dialogs = [],
      workers = [],
      after_queue = [],
      next_task = 0,
      completed = []\<rparr>"

definition example_env :: "string \<Rightarrow> string option" where
  "example_env name = (if name = ''OPENROUTER_API_KEY'' then Some ''sk-example'' else None)"

definition example_job :: "nat \<Rightarrow> job" where
  "example_job n = \<lparr>job_prompt = ''Title:||'', job_model = ''model-c'', job_tag = ''card'',
                    job_widget = Output_create, job_task = n\<rparr>"

definition chat_completion :: "pyval \<Rightarrow> pyval" where
  "chat_completion v = PDict [(''choices'', PList [PDict [(''message'', PDict [(''content'', v)])]])]"

definition net_returns :: "pyval \<Rightarrow> request \<Rightarrow> http_result" where
  "net_returns v req = Returns \<lparr>status_code = 200, json_body = Some v\<rparr>"

definition net_raises :: "exn \<Rightarrow> request \<Rightarrow> http_result" where
  "net_raises e req = Raises e"


text \<open>
  The tasks in flight, by number: those of the running workers, then those of the scheduled
  completions.  \<open>runner_inv\<close> is the invariant of the task runner, and \<open>same_but_dialogs\<close>
  relates two states that differ at most in the message boxes shown.
\<close>

definition in_flight :: "app \<Rightarrow> nat list" where
  "in_flight s = map job_task (workers s) @ map done_task (after_queue s)"

definition runner_inv :: "app \<Rightarrow> bool" where
  "runner_inv s =
     ((llm_running s \<longleftrightarrow> in_flight s \<noteq> []) \<and> length (in_flight s) \<le> 1 \<and>
      distinct (in_flight s @ completed s) \<and> set (in_flight s @ completed s) = {..<next_task s})"

definition same_but_dialogs :: "app \<Rightarrow> app \<Rightarrow> bool" where
  "same_but_dialogs s s' = (s'\<lparr>dialogs := dialogs s\<rparr> = s)"

section \<open>Prompt builder: sequential replacement against a single pass\<close>

lemma replace_brace_tok: "replace (brace_tok n) v s = replace_scan (brace_tok n) v s"
  by (simp add: replace_def brace_tok_def)

lemma rs_lit: "c \<noteq> CHR ''{'' \<Longrightarrow>
  replace_scan (brace_tok n) v (c # s) = c # replace_scan (brace_tok n) v s"
  by (simp add: brace_tok_def)

lemma rs_same: "replace_scan (brace_tok n) v (brace_tok n @ s) = v @ replace_scan (brace_tok n) v s"
  by (simp add: brace_tok_def)

lemma sp_Nil: "single_pass [] s = s"
  by (induction s) simp_all

declare replace_scan.simps(2) [simp del]
declare single_pass.simps(2) [simp del]

lemma rs_lits: "CHR ''{'' \<notin> set l \<Longrightarrow>
  replace_scan (brace_tok n) v (l @ s) = l @ replace_scan (brace_tok n) v s"
proof (induction l)
  case Nil
  then show ?case by simp
next
  case (Cons a l)
  then have "a \<noteq> CHR ''{''" by auto
  with Cons show ?case by (simp add: rs_lit)
qed

lemma prefix_sentinel:
  "a \<notin> set xs \<Longrightarrow> a \<notin> set ys \<Longrightarrow> prefix (xs @ [a]) (ys @ a # zs) \<Longrightarrow> xs = ys"
proof (induction xs arbitrary: ys)
  case Nil
  then show ?case by (cases ys) auto
next
  case (Cons x xs)
  then show ?case by (cases ys) auto
qed

lemma prefix_brace_tok:
  assumes "brace_free n" "brace_free m"
  shows "prefix (brace_tok n) (brace_tok m @ s) \<longleftrightarrow> n = m"
proof
  assume "prefix (brace_tok n) (brace_tok m @ s)"
  then have "prefix (n @ ''}'') (m @ CHR ''}'' # s)" by (simp add: brace_tok_def)
  with assms show "n = m" using prefix_sentinel[of "CHR ''}''" n m s] by (simp add: brace_free_def)
next
  assume "n = m" then show "prefix (brace_tok n) (brace_tok m @ s)" by simp
qed

lemma rs_other:
  assumes "brace_free n" "brace_free m" "n \<noteq> m"
  shows "replace_scan (brace_tok n) v (brace_tok m @ s) = brace_tok m @ replace_scan (brace_tok n) v s"
proof -
  have np: "\<not> prefix (brace_tok n) (brace_tok m @ s)" using assms prefix_brace_tok by blast
  have "replace_scan (brace_tok n) v (brace_tok m @ s)
      = CHR ''{'' # replace_scan (brace_tok n) v (m @ CHR ''}'' # s)"
    using np by (simp add: brace_tok_def replace_scan.simps(2))
  also have "\<dots> = CHR ''{'' # m @ replace_scan (brace_tok n) v (CHR ''}'' # s)"
    using assms(2) by (simp add: rs_lits brace_free_def)
  also have "\<dots> = brace_tok m @ replace_scan (brace_tok n) v s"
    using rs_lit[of "CHR ''}''" n v s] by (simp add: brace_tok_def)
  finally show ?thesis .
qed

lemma find_toks_lit: "c \<noteq> CHR ''{'' \<Longrightarrow>
  find (\<lambda>(t, v). t \<noteq> [] \<and> prefix t (c # s)) (toks ps) = None"
  by (induction ps) (auto simp: toks_def brace_tok_def)

lemma sp_lit: "c \<noteq> CHR ''{'' \<Longrightarrow> single_pass (toks ps) (c # s) = c # single_pass (toks ps) s"
  by (simp add: find_toks_lit single_pass.simps(2))

lemma sp_lits: "CHR ''{'' \<notin> set l \<Longrightarrow> single_pass (toks ps) (l @ s) = l @ single_pass (toks ps) s"
proof (induction l)
  case Nil
  then show ?case by simp
next
  case (Cons a l)
  then have "a \<noteq> CHR ''{''" by auto
  with Cons show ?case by (simp add: sp_lit)
qed

lemma find_toks_tok:
  assumes "names_ok ps" "brace_free m"
  shows "find (\<lambda>(t, v). t \<noteq> [] \<and> prefix t (brace_tok m @ s)) (toks ps)
         = map_option (\<lambda>v. (brace_tok m, v)) (map_of ps m)"
  using assms(1)
proof (induction ps)
  case Nil
  then show ?case by (simp add: toks_def)
next
  case (Cons p ps)
  obtain n v where p: "p = (n, v)" by (cases p)
  with Cons.prems have bf: "brace_free n" and ok: "names_ok ps" by (simp_all add: names_ok_def)
  have ne: "brace_tok n \<noteq> []" by (simp add: brace_tok_def)
  show ?case
  proof (cases "n = m")
    case True
    then show ?thesis using p ne by (simp add: toks_def)
  next
    case False
    then have "\<not> prefix (brace_tok n) (brace_tok m @ s)"
      using prefix_brace_tok[OF bf assms(2)] by simp
    then show ?thesis using p False Cons.IH[OF ok] by (simp add: toks_def)
  qed
qed

lemma sp_tok:
  assumes "names_ok ps" "brace_free m"
  shows "single_pass (toks ps) (brace_tok m @ s)
         = (case map_of ps m of Some v \<Rightarrow> v | None \<Rightarrow> brace_tok m) @ single_pass (toks ps) s"
proof (cases "map_of ps m")
  case None
  then have f: "find (\<lambda>(t, v). t \<noteq> [] \<and> prefix t (CHR ''{'' # m @ CHR ''}'' # s)) (toks ps) = None"
    using find_toks_tok[OF assms, of s] by (simp add: brace_tok_def)
  have "single_pass (toks ps) (brace_tok m @ s) = CHR ''{'' # single_pass (toks ps) (m @ CHR ''}'' # s)"
    using f by (simp add: brace_tok_def single_pass.simps(2))
  also have "\<dots> = CHR ''{'' # m @ single_pass (toks ps) (CHR ''}'' # s)"
    using assms(2) by (simp add: sp_lits brace_free_def)
  also have "\<dots> = brace_tok m @ single_pass (toks ps) s"
    using sp_lit[of "CHR ''}''" ps s] by (simp add: brace_tok_def)
  finally show ?thesis using None by simp
next
  case (Some v)
  then have f: "find (\<lambda>(t, v). t \<noteq> [] \<and> prefix t (CHR ''{'' # m @ CHR ''}'' # s)) (toks ps)
     = Some (brace_tok m, v)"
    using find_toks_tok[OF assms, of s] by (simp add: brace_tok_def)
  have "single_pass (toks ps) (CHR ''{'' # m @ CHR ''}'' # s)
      = v @ single_pass (toks ps) (drop (length (brace_tok m)) (CHR ''{'' # m @ CHR ''}'' # s))"
    using f by (simp add: single_pass.simps(2))
  then show ?thesis using Some by (simp add: brace_tok_def)
qed

lemma closed_inside:
  "closed_braces True s \<Longrightarrow> \<exists>m r. s = m @ CHR ''}'' # r \<and> brace_free m \<and> closed_braces False r"
proof (induction s)
  case Nil
  then show ?case by simp
next
  case (Cons c s)
  show ?case
  proof (cases "c = CHR ''}''")
    case True
    with Cons.prems have "closed_braces False s" by simp
    with True show ?thesis by (intro exI[of _ "[]"] exI[of _ s]) (simp add: brace_free_def)
  next
    case False
    with Cons.prems have c: "c \<noteq> CHR ''{''" and "closed_braces True s" by (auto split: if_splits)
    with Cons.IH obtain m r where "s = m @ CHR ''}'' # r" "brace_free m" "closed_braces False r"
      by blast
    with False c show ?thesis
      by (intro exI[of _ "c # m"] exI[of _ r]) (simp add: brace_free_def)
  qed
qed

lemma closed_cases:
  assumes "closed_braces False s"
  obtains (Nil) "s = []"
  | (Lit) c r where "s = c # r" "c \<noteq> CHR ''{''" "closed_braces False r"
  | (Tok) m r where "s = brace_tok m @ r" "brace_free m" "closed_braces False r"
proof (cases s)
  case Nil
  then show ?thesis using that by simp
next
  case (Cons c r)
  show ?thesis
  proof (cases "c = CHR ''{''")
    case True
    with assms Cons have "closed_braces True r" by simp
    from closed_inside[OF this] obtain m r' where "r = m @ CHR ''}'' # r'" "brace_free m"
      "closed_braces False r'" by blast
    with True Cons show ?thesis using that(3)[of m r'] by (simp add: brace_tok_def)
  next
    case False
    with assms Cons have "closed_braces False r" by (auto split: if_splits)
    with False Cons show ?thesis using that(2) by simp
  qed
qed

lemma closed_lits: "CHR ''{'' \<notin> set l \<Longrightarrow> closed_braces False (l @ s) = closed_braces False s"
  by (induction l) auto

lemma closed_inside_app:
  "brace_free m \<Longrightarrow> closed_braces True (m @ CHR ''}'' # s) = closed_braces False s"
  by (induction m) (auto simp: brace_free_def)

lemma closed_tok: "brace_free m \<Longrightarrow> closed_braces False (brace_tok m @ s) = closed_braces False s"
  by (simp add: brace_tok_def closed_inside_app)

lemma closed_induct [consumes 1, case_names Nil Lit Tok]:
  assumes "closed_braces False s"
    and "P []"
    and "\<And>c r. c \<noteq> CHR ''{'' \<Longrightarrow> closed_braces False r \<Longrightarrow> P r \<Longrightarrow> P (c # r)"
    and "\<And>m r. brace_free m \<Longrightarrow> closed_braces False r \<Longrightarrow> P r \<Longrightarrow> P (brace_tok m @ r)"
  shows "P s"
  using assms(1)
proof (induction "length s" arbitrary: s rule: less_induct)
  case less
  from less.prems show ?case
  proof (cases rule: closed_cases)
    case Nil
    then show ?thesis using assms(2) by simp
  next
    case (Lit c r)
    then show ?thesis using assms(3) less.hyps[of r] by simp
  next
    case (Tok m r)
    then show ?thesis using assms(4) less.hyps[of r] by (simp add: brace_tok_def)
  qed
qed

lemma closed_replace:
  assumes "closed_braces False s" "CHR ''{'' \<notin> set v" "brace_free n"
  shows "closed_braces False (replace_scan (brace_tok n) v s)"
  using assms(1)
proof (induction rule: closed_induct)
  case Nil
  then show ?case by simp
next
  case (Lit c r)
  then show ?case by (simp add: rs_lit)
next
  case (Tok m r)
  show ?case
  proof (cases "n = m")
    case True
    then show ?thesis using Tok assms(2) by (simp add: rs_same closed_lits)
  next
    case False
    then show ?thesis using Tok assms(3) by (simp add: rs_other closed_tok)
  qed
qed

lemma seq_step:
  assumes "closed_braces False s" "ps = [] \<or> CHR ''{'' \<notin> set v" "brace_free n" "names_ok ps"
    "n \<notin> fst ` set ps"
  shows "single_pass (toks ps) (replace_scan (brace_tok n) v s) = single_pass (toks ((n, v) # ps)) s"
  using assms(1)
proof (induction rule: closed_induct)
  case Nil
  then show ?case by simp
next
  case (Lit c r)
  then show ?case by (simp add: rs_lit sp_lit)
next
  case (Tok m r)
  have ok: "names_ok ((n, v) # ps)" using assms(3,4) by (simp add: names_ok_def)
  have v: "single_pass (toks ps) (v @ x) = v @ single_pass (toks ps) x" for x
    using assms(2)
  proof
    assume "ps = []" then show ?thesis by (simp add: toks_def sp_Nil)
  next
    assume "CHR ''{'' \<notin> set v" then show ?thesis by (rule sp_lits)
  qed
  show ?case
  proof (cases "n = m")
    case True
    have "single_pass (toks ((n, v) # ps)) (brace_tok n @ r) = v @ single_pass (toks ((n, v) # ps)) r"
      using sp_tok[OF ok assms(3), of r] by simp
    then show ?thesis using True Tok v by (simp add: rs_same)
  next
    case False
    then show ?thesis using Tok assms(3)
      by (simp add: rs_other sp_tok[OF ok] sp_tok[OF assms(4)])
  qed
qed

lemma sp_map_of:
  assumes "closed_braces False s" "names_ok ps" "names_ok qs" "map_of ps = map_of qs"
  shows "single_pass (toks ps) s = single_pass (toks qs) s"
  using assms(1)
proof (induction rule: closed_induct)
  case Nil
  then show ?case by simp
next
  case (Lit c r)
  then show ?case by (simp add: sp_lit)
next
  case (Tok m r)
  then show ?case using assms(4) by (simp add: sp_tok[OF assms(2)] sp_tok[OF assms(3)])
qed

lemma seq_replace_single_pass:
  assumes "closed_braces False s" "names_ok ps" "distinct (map fst ps)"
    "list_all (\<lambda>(n, v). CHR ''{'' \<notin> set v) (butlast ps)"
  shows "seq_replace (toks ps) s = single_pass (toks ps) s"
  using assms
proof (induction ps arbitrary: s)
  case Nil
  then show ?case by (simp add: seq_replace_def toks_def sp_Nil)
next
  case (Cons p ps)
  obtain n v where p: "p = (n, v)" by (cases p)
  from Cons.prems p have bf: "brace_free n" and ok: "names_ok ps" and nin: "n \<notin> fst ` set ps"
    and d: "distinct (map fst ps)" by (simp_all add: names_ok_def)
  have vv: "ps = [] \<or> CHR ''{'' \<notin> set v" using Cons.prems(4) p by (cases ps) auto
  have step: "seq_replace (toks (p # ps)) s = seq_replace (toks ps) (replace_scan (brace_tok n) v s)"
    by (simp add: seq_replace_def toks_def p replace_brace_tok)
  show ?case
  proof (cases "ps = []")
    case True
    then show ?thesis using step seq_step[OF Cons.prems(1) vv bf ok nin] p
      by (simp add: seq_replace_def toks_def sp_Nil)
  next
    case False
    with vv have v: "CHR ''{'' \<notin> set v" by simp
    have cl: "closed_braces False (replace_scan (brace_tok n) v s)"
      using closed_replace[OF Cons.prems(1) v bf] .
    have bl: "list_all (\<lambda>(n, v). CHR ''{'' \<notin> set v) (butlast ps)"
      using Cons.prems(4) False by simp
    show ?thesis using step Cons.IH[OF cl ok d bl] seq_step[OF Cons.prems(1) vv bf ok nin] p
      by simp
  qed
qed


lemma build_prompt_seq:
  "build_prompt user_tok skeleton template user_text extra_info =
   seq_replace [(tok_card_modelo, template), (user_tok, user_text),
                (tok_informacoes_adicionais, extra_info)] skeleton"
  by (simp add: build_prompt_def seq_replace_def apply_common_replacements_def)

lemma tok_name_brace_tok: "tok_name (brace_tok n) = n"
  by (simp add: tok_name_def brace_tok_def butlast_append)

lemma perm_toks:
  assumes "mset reps = mset (toks ps)"
  obtains qs where "reps = toks qs" "mset qs = mset ps"
proof
  let ?f = "\<lambda>(n, v). (brace_tok n, v)" and ?g = "\<lambda>(t, v). (tok_name t, v)"
  let ?qs = "map ?g reps"
  have gf: "?g (?f p) = p" for p :: "string \<times> string"
    by (cases p) (simp add: tok_name_brace_tok)
  have "set reps = set (toks ps)" using assms by (rule mset_eq_setD)
  then have "\<forall>r\<in>set reps. ?f (?g r) = r" using gf by (auto simp: toks_def)
  then have "map (?f \<circ> ?g) reps = reps" by (simp add: map_idI)
  then show "reps = toks ?qs" by (simp add: toks_def)
  have "mset ?qs = image_mset ?g (mset (toks ps))" using assms by simp
  also have "\<dots> = image_mset (?g \<circ> ?f) (mset ps)"
    by (simp add: toks_def multiset.map_comp)
  also have "\<dots> = mset ps" using gf by (simp add: comp_def)
  finally show "mset ?qs = mset ps" .
qed

lemma seq_replace_perm:
  assumes "closed_braces False s" "names_ok ps" "distinct (map fst ps)"
    "list_all (\<lambda>(n, v). CHR ''{'' \<notin> set v) ps" "mset reps = mset (toks ps)"
  shows "seq_replace reps s = single_pass (toks ps) s"
proof -
  from perm_toks[OF assms(5)] obtain qs where r: "reps = toks qs" and m: "mset qs = mset ps"
    by blast
  from m have st: "set qs = set ps" by (rule mset_eq_setD)
  have "mset (map fst qs) = mset (map fst ps)" using m by (metis mset_map)
  then have d: "distinct (map fst qs)" using assms(3) by (metis mset_eq_imp_distinct_iff)
  have ok: "names_ok qs" using assms(2) st by (simp add: names_ok_def list_all_iff)
  have "list_all (\<lambda>(n, v). CHR ''{'' \<notin> set v) qs" using assms(4) st by (simp add: list_all_iff)
  then have bl: "list_all (\<lambda>(n, v). CHR ''{'' \<notin> set v) (butlast qs)"
    by (auto simp: list_all_iff dest: in_set_butlastD)
  have mo: "map_of qs = map_of ps" using d assms(3) st by (simp add: map_of_inject_set)
  have "seq_replace (toks qs) s = single_pass (toks qs) s"
    using seq_replace_single_pass[OF assms(1) ok d bl] .
  also have "\<dots> = single_pass (toks ps) s" using sp_map_of[OF assms(1) ok assms(2) mo] .
  finally show ?thesis using r by simp
qed

lemma tok_brace_forms:
  "tok_card_modelo = brace_tok ''Card_modelo''"
  "tok_user_info = brace_tok ''informacoes_fornecidas_pelo_usuario''"
  "tok_card_para_analise = brace_tok ''Card_para_analise''"
  "tok_informacoes_adicionais = brace_tok ''informacoes_adicionais''"
  by (simp_all add: brace_tok_def tok_card_modelo_def tok_user_info_def
      tok_card_para_analise_def tok_informacoes_adicionais_def)

text \<open>
  Claim C1, as amended.  The handlers apply three \<open>replace\<close> calls one after the other, so
  each later call also scans the text inserted by the earlier ones.  When every \<open>{\<close> of the
  skeleton is closed by a \<open>}\<close> before the next \<open>{\<close> and neither the template nor the user
  text contains \<open>{\<close>, the built prompt is the single-pass substitution of the three tokens;
  when the additional information contains no \<open>{\<close> either, every order of the three
  replacements gives that same prompt.
\<close>

theorem prompt_builder_single_pass:
  assumes "closed_braces False skeleton"
    and "user_tok = tok_user_info \<or> user_tok = tok_card_para_analise"
    and "CHR ''{'' \<notin> set template" and "CHR ''{'' \<notin> set user_text"
  shows "build_prompt user_tok skeleton template user_text extra_info =
           single_pass [(tok_card_modelo, template), (user_tok, user_text),
                        (tok_informacoes_adicionais, extra_info)] skeleton
       \<and> (CHR ''{'' \<notin> set extra_info \<longrightarrow>
            (\<forall>reps. mset reps = mset [(tok_card_modelo, template), (user_tok, user_text),
                                       (tok_informacoes_adicionais, extra_info)] \<longrightarrow>
               seq_replace reps skeleton =
               build_prompt user_tok skeleton template user_text extra_info))"
proof -
  from assms(2) obtain u where u: "user_tok = brace_tok u" "brace_free u" "u \<noteq> ''Card_modelo''"
    "u \<noteq> ''informacoes_adicionais''"
    by (auto simp: tok_brace_forms brace_free_def)
  define ps where "ps = [(''Card_modelo'', template), (u, user_text),
                         (''informacoes_adicionais'', extra_info)]"
  have t: "toks ps = [(tok_card_modelo, template), (user_tok, user_text),
                      (tok_informacoes_adicionais, extra_info)]"
    by (simp add: ps_def toks_def tok_brace_forms u)
  have ok: "names_ok ps" using u by (simp add: ps_def names_ok_def brace_free_def)
  have d: "distinct (map fst ps)" using u by (auto simp: ps_def)
  have bl: "list_all (\<lambda>(n, v). CHR ''{'' \<notin> set v) (butlast ps)"
    using assms(3,4) by (simp add: ps_def)
  have fst: "build_prompt user_tok skeleton template user_text extra_info =
             single_pass (toks ps) skeleton"
    using seq_replace_single_pass[OF assms(1) ok d bl] by (simp add: build_prompt_seq t)
  have snd: "seq_replace reps skeleton = single_pass (toks ps) skeleton"
    if "CHR ''{'' \<notin> set extra_info" "mset reps = mset (toks ps)" for reps
  proof -
    have "list_all (\<lambda>(n, v). CHR ''{'' \<notin> set v) ps"
      using assms(3,4) that(1) by (simp add: ps_def)
    from seq_replace_perm[OF assms(1) ok d this that(2)] show ?thesis .
  qed
  show ?thesis using fst snd by (simp add: t)
qed

text \<open>
  The hypotheses of C1 (amended) hold on a skeleton with the three tokens; the template may
  hold a closing brace.
\<close>

theorem prompt_builder_single_pass_witness:
  "closed_braces False ''{Card_modelo}|{informacoes_fornecidas_pelo_usuario}|{informacoes_adicionais}''
   \<and> build_prompt tok_user_info
        ''{Card_modelo}|{informacoes_fornecidas_pelo_usuario}|{informacoes_adicionais}''
        ''T}'' ''U'' ''A''
     = single_pass [(tok_card_modelo, ''T}''), (tok_user_info, ''U''),
                    (tok_informacoes_adicionais, ''A'')]
        ''{Card_modelo}|{informacoes_fornecidas_pelo_usuario}|{informacoes_adicionais}''
   \<and> seq_replace [(tok_informacoes_adicionais, ''A''), (tok_user_info, ''U''),
                    (tok_card_modelo, ''T}'')]
        ''{Card_modelo}|{informacoes_fornecidas_pelo_usuario}|{informacoes_adicionais}''
     = build_prompt tok_user_info
        ''{Card_modelo}|{informacoes_fornecidas_pelo_usuario}|{informacoes_adicionais}''
        ''T}'' ''U'' ''A''"
proof -
  let ?s = "''{Card_modelo}|{informacoes_fornecidas_pelo_usuario}|{informacoes_adicionais}''"
  have c: "closed_braces False ?s" by simp
  have m: "mset [(tok_informacoes_adicionais, ''A''), (tok_user_info, ''U''),
                 (tok_card_modelo, ''T}'')]
         = mset [(tok_card_modelo, ''T}''), (tok_user_info, ''U''),
                 (tok_informacoes_adicionais, ''A'')]" by simp
  show ?thesis
    using prompt_builder_single_pass[of ?s tok_user_info "''T}''" "''U''" "''A''"] c m
    by simp
qed

text \<open>
  Claim C1 as stated fails: a template body that is the token \<open>{informacoes_adicionais}\<close>
  is substituted for \<open>{Card_modelo}\<close> and then replaced again by the last step, where a
  single pass would leave it as it is; applying the same three replacements in the reverse
  order also leaves it as it is, so the order matters.
\<close>

theorem prompt_builder_rescans_counterexample:
  "build_prompt tok_user_info ''{Card_modelo}'' ''{informacoes_adicionais}'' '''' ''X'' = ''X''
   \<and> single_pass [(tok_card_modelo, ''{informacoes_adicionais}''), (tok_user_info, ''''),
                    (tok_informacoes_adicionais, ''X'')] ''{Card_modelo}''
       = ''{informacoes_adicionais}''
   \<and> seq_replace [(tok_informacoes_adicionais, ''X''), (tok_user_info, ''''),
                    (tok_card_modelo, ''{informacoes_adicionais}'')] ''{Card_modelo}''
       = ''{informacoes_adicionais}''"
  by (simp add: build_prompt_def seq_replace_def apply_common_replacements_def replace_def
      tok_card_modelo_def tok_user_info_def tok_informacoes_adicionais_def
      replace_scan.simps(2) single_pass.simps(2))

text \<open>
  Why the amended claim asks for a skeleton without nested braces: with a token inside the
  braces of another one the order of the replacements matters although no value holds a
  brace.
\<close>

lemma nested_token_order_matters:
  "build_prompt tok_user_info ''{Card_{informacoes_adicionais}modelo}'' ''T'' [] [] = ''{Card_modelo}''
   \<and> seq_replace [(tok_informacoes_adicionais, []), (tok_user_info, []), (tok_card_modelo, ''T'')]
        ''{Card_{informacoes_adicionais}modelo}'' = ''T''"
  by (simp add: build_prompt_def seq_replace_def apply_common_replacements_def replace_def
      tok_card_modelo_def tok_user_info_def tok_informacoes_adicionais_def
      replace_scan.simps(2))

section \<open>Template store: the blocks found and the mapping built\<close>

lemma split_at_first_Some:
  "split_at_first pat s = Some (before, after) \<Longrightarrow> s = before @ pat @ after"
proof (induction s arbitrary: before)
  case Nil
  then show ?case by (simp split: if_splits)
next
  case (Cons c cs)
  show ?case
  proof (cases "prefix pat (c # cs)")
    case True
    with Cons.prems show ?thesis by (auto simp: prefix_def)
  next
    case False
    with Cons.prems obtain b where "split_at_first pat cs = Some (b, after)" "before = c # b"
      by auto
    with Cons.IH show ?thesis by simp
  qed
qed

lemma split_at_first_minimal:
  "split_at_first pat s = Some (before, after) \<Longrightarrow> s = u @ pat @ w \<Longrightarrow> length before \<le> length u"
proof (induction s arbitrary: before u)
  case Nil
  then show ?case by (simp split: if_splits)
next
  case (Cons c cs)
  show ?case
  proof (cases "prefix pat (c # cs)")
    case True
    with Cons.prems(1) have "before = []" by simp
    then show ?thesis by simp
  next
    case False
    with Cons.prems(1) obtain b where b: "split_at_first pat cs = Some (b, after)" "before = c # b"
      by auto
    from False Cons.prems(2) have "u \<noteq> []" by (auto simp: prefix_def)
    then obtain u' where u: "u = c # u'" "cs = u' @ pat @ w" using Cons.prems(2) by (cases u) auto
    from Cons.IH[OF b(1) u(2)] b(2) u(1) show ?thesis by simp
  qed
qed

lemma split_at_first_complete:
  "s = u @ pat @ w \<Longrightarrow> split_at_first pat s \<noteq> None"
proof (induction u arbitrary: s)
  case Nil
  show ?case
  proof (cases s)
    case Nil
    with Nil.prems show ?thesis by simp
  next
    case (Cons a l)
    have "prefix pat s" using Nil.prems by simp
    with Cons show ?thesis by simp
  qed
next
  case (Cons a u)
  then show ?case by (cases "prefix pat s") auto
qed

lemma is_word_not_space: "is_word c \<Longrightarrow> \<not> is_space c"
  by (auto simp: is_word_def is_space_def Let_def)

lemma strip_word_name: "word_name n \<Longrightarrow> strip n = n"
proof -
  assume w: "word_name n"
  then have ne: "n \<noteq> []" by (simp add: word_name_def)
  from w have all: "\<forall>c\<in>set n. \<not> is_space c"
    by (auto simp: word_name_def list_all_iff is_word_not_space)
  have 1: "dropWhile is_space n = n" using all ne by (cases n) auto
  have "\<forall>c\<in>set (rev n). \<not> is_space c" using all by simp
  then have 2: "dropWhile is_space (rev n) = rev n" by (cases "rev n") auto
  show ?thesis by (simp add: strip_def 1 2)
qed

lemma takeWhile_word_name:
  assumes "word_name n"
  shows "takeWhile is_word (n @ CHR ''>'' # x) = n" "dropWhile is_word (n @ CHR ''>'' # x) = CHR ''>'' # x"
proof -
  have ng: "\<not> is_word CHR ''>''" by (simp add: is_word_def)
  from assms have all: "\<forall>c\<in>set n. is_word c" by (simp add: word_name_def list_all_iff)
  show "takeWhile is_word (n @ CHR ''>'' # x) = n"
    using all ng by (simp add: takeWhile_append2)
  show "dropWhile is_word (n @ CHR ''>'' # x) = CHR ''>'' # x"
    using all ng by (simp add: dropWhile_append2)
qed

lemma match_block_Some:
  assumes "match_block s = Some (n, c, rest)"
  shows "s = block_text n c @ rest" "word_name n"
    "\<And>u w. c @ close_tag n @ rest = u @ close_tag n @ w \<Longrightarrow> length c \<le> length u"
proof -
  from assms obtain s1 s3 where s: "s = CHR ''<'' # s1"
    and n: "n = takeWhile is_word s1" "n \<noteq> []"
    and d: "dropWhile is_word s1 = CHR ''>'' # s3"
    and sp: "split_at_first (close_tag n) s3 = Some (c, rest)"
    by (auto simp: match_block_def Let_def split: list.splits if_splits option.splits)
  from sp have s3: "s3 = c @ close_tag n @ rest" by (rule split_at_first_Some)
  have "s1 = n @ CHR ''>'' # s3" using n(1) d by (metis takeWhile_dropWhile_id)
  then show "s = block_text n c @ rest" using s s3 by (simp add: block_text_def)
  have "\<forall>x\<in>set n. is_word x" unfolding n(1) by (auto dest: set_takeWhileD)
  then show "word_name n" using n(2) by (simp add: word_name_def list_all_iff)
  show "length c \<le> length u" if "c @ close_tag n @ rest = u @ close_tag n @ w" for u w
    using split_at_first_minimal[OF sp] that s3 by simp
qed

lemma match_block_complete:
  assumes "word_name n"
  shows "match_block (block_text n c @ rest) \<noteq> None"
proof -
  have sp: "split_at_first (close_tag n) (c @ close_tag n @ rest) \<noteq> None"
    by (rule split_at_first_complete) simp
  have ne: "n \<noteq> []" using assms by (simp add: word_name_def)
  show ?thesis
    using sp ne takeWhile_word_name[OF assms, of "c @ close_tag n @ rest"]
    by (auto simp: match_block_def block_text_def Let_def)
qed

lemma finditer_Nil_iff:
  "finditer s = [] \<longleftrightarrow> (\<forall>pre t. s = pre @ t \<longrightarrow> match_block t = None)"
proof (induction s rule: finditer.induct)
  case 1
  then show ?case by (simp add: match_block_def)
next
  case (2 c cs)
  show ?case
  proof (cases "match_block (c # cs)")
    case None
    have "(\<forall>pre t. c # cs = pre @ t \<longrightarrow> match_block t = None)
        \<longleftrightarrow> (\<forall>pre t. cs = pre @ t \<longrightarrow> match_block t = None)"
    proof
      assume h: "\<forall>pre t. c # cs = pre @ t \<longrightarrow> match_block t = None"
      show "\<forall>pre t. cs = pre @ t \<longrightarrow> match_block t = None"
      proof (intro allI impI)
        fix pre t assume "cs = pre @ t"
        then have "c # cs = (c # pre) @ t" by simp
        with h show "match_block t = None" by blast
      qed
    next
      assume h: "\<forall>pre t. cs = pre @ t \<longrightarrow> match_block t = None"
      show "\<forall>pre t. c # cs = pre @ t \<longrightarrow> match_block t = None"
      proof (intro allI impI)
        fix pre t assume e: "c # cs = pre @ t"
        show "match_block t = None"
        proof (cases pre)
          case Nil
          with e None show ?thesis by simp
        next
          case (Cons a pre')
          with e have "cs = pre' @ t" by simp
          with h show ?thesis by blast
        qed
      qed
    qed
    with None 2(1) show ?thesis by simp
  next
    case (Some r)
    then have "finditer (c # cs) \<noteq> []" by (cases r) auto
    moreover have "c # cs = [] @ (c # cs)" by simp
    ultimately show ?thesis using Some by (metis option.distinct(1))
  qed
qed

lemma finditer_Nil_no_block:
  "finditer s = [] \<longleftrightarrow> \<not> (\<exists>pre n c post. s = pre @ block_text n c @ post \<and> word_name n)"
proof
  assume e: "finditer s = []"
  show "\<not> (\<exists>pre n c post. s = pre @ block_text n c @ post \<and> word_name n)"
  proof
    assume "\<exists>pre n c post. s = pre @ block_text n c @ post \<and> word_name n"
    then obtain pre n c post where "s = pre @ block_text n c @ post" "word_name n" by blast
    with e match_block_complete[of n c post] show False by (simp add: finditer_Nil_iff)
  qed
next
  assume h: "\<not> (\<exists>pre n c post. s = pre @ block_text n c @ post \<and> word_name n)"
  have "match_block t = None" if "s = pre @ t" for pre t
  proof (rule ccontr)
    assume "match_block t \<noteq> None"
    then obtain n c rest where "match_block t = Some (n, c, rest)" by auto
    from match_block_Some(1,2)[OF this] that h show False by blast
  qed
  then show "finditer s = []" by (simp add: finditer_Nil_iff)
qed

lemma finditer_blocks:
  "(n, c) \<in> set (finditer s) \<Longrightarrow>
   word_name n \<and> (\<exists>pre post. s = pre @ block_text n c @ post \<and>
     (\<forall>u w. c @ close_tag n @ post = u @ close_tag n @ w \<longrightarrow> length c \<le> length u))"
proof (induction s rule: finditer.induct)
  case 1
  then show ?case by simp
next
  case (2 a cs)
  show ?case
  proof (cases "match_block (a # cs)")
    case None
    with 2(1,3) have "word_name n \<and> (\<exists>pre post. cs = pre @ block_text n c @ post \<and>
     (\<forall>u w. c @ close_tag n @ post = u @ close_tag n @ w \<longrightarrow> length c \<le> length u))" by simp
    then obtain pre post where w: "word_name n" and "cs = pre @ block_text n c @ post"
      and m: "\<forall>u w. c @ close_tag n @ post = u @ close_tag n @ w \<longrightarrow> length c \<le> length u" by blast
    then have "a # cs = (a # pre) @ block_text n c @ post" by simp
    with w m show ?thesis by blast
  next
    case (Some r)
    obtain n' c' rest where r: "r = (n', c', rest)" by (cases r)
    note mb = match_block_Some[OF Some[unfolded r]]
    from 2(3) Some r have "(n, c) = (n', c') \<or> (n, c) \<in> set (finditer rest)" by simp
    then show ?thesis
    proof
      assume "(n, c) = (n', c')"
      then have "a # cs = [] @ block_text n c @ rest" and "word_name n"
        and "\<forall>u w. c @ close_tag n @ rest = u @ close_tag n @ w \<longrightarrow> length c \<le> length u"
        using mb by auto
      then show ?thesis by blast
    next
      assume "(n, c) \<in> set (finditer rest)"
      with 2(2)[OF Some[unfolded r] refl refl] obtain pre post where w: "word_name n"
        and e: "rest = pre @ block_text n c @ post"
        and m: "\<forall>u w. c @ close_tag n @ post = u @ close_tag n @ w \<longrightarrow> length c \<le> length u"
        by blast
      from mb(1) e have "a # cs = (block_text n' c' @ pre) @ block_text n c @ post" by simp
      with w m show ?thesis by blast
    qed
  qed
qed

lemma map_of_add_template:
  "strip (fst m) \<noteq> [] \<Longrightarrow>
   map_of (add_template d m) = (map_of d)(strip (fst m) \<mapsto> strip (snd m))"
  by (simp add: add_template_def Let_def update_conv')

lemma distinct_add_template: "distinct (map fst d) \<Longrightarrow> distinct (map fst (add_template d m))"
  by (simp add: add_template_def Let_def distinct_update)

lemma distinct_foldl_add_template:
  "distinct (map fst d) \<Longrightarrow> distinct (map fst (foldl add_template d ms))"
  by (induction ms arbitrary: d) (simp_all add: distinct_add_template)

lemma map_of_foldl_add_template:
  assumes "\<forall>m\<in>set ms. strip (fst m) \<noteq> []"
  shows "map_of (foldl add_template d ms) k =
         (if filter (\<lambda>b. strip (fst b) = k) ms = [] then map_of d k
          else Some (strip (snd (last (filter (\<lambda>b. strip (fst b) = k) ms)))))"
  using assms
proof (induction ms rule: rev_induct)
  case Nil
  then show ?case by simp
next
  case (snoc m ms)
  then have ne: "strip (fst m) \<noteq> []" and rest: "\<forall>m\<in>set ms. strip (fst m) \<noteq> []" by simp_all
  show ?case
  proof (cases "strip (fst m) = k")
    case True
    then show ?thesis
      using ne by (simp add: map_of_add_template)
  next
    case False
    then show ?thesis
      using ne snoc.IH[OF rest] by (simp add: map_of_add_template)
  qed
qed

lemma keys_foldl_add_template:
  assumes "\<forall>m\<in>set ms. strip (fst m) \<noteq> []"
  shows "set (map fst (foldl add_template [] ms)) = (\<lambda>m. strip (fst m)) ` set ms"
proof -
  have "k \<in> dom (map_of (foldl add_template [] ms)) \<longleftrightarrow> k \<in> (\<lambda>m. strip (fst m)) ` set ms" for k
  proof -
    have "filter (\<lambda>b. strip (fst b) = k) ms \<noteq> [] \<longleftrightarrow> k \<in> (\<lambda>m. strip (fst m)) ` set ms"
      by (auto simp: filter_empty_conv)
    then show ?thesis
      using map_of_foldl_add_template[OF assms, of "[]" k] by (auto split: if_splits)
  qed
  then show ?thesis by (auto simp: dom_map_of_conv_image_fst)
qed

lemma finditer_names:
  "m \<in> set (finditer text) \<Longrightarrow> word_name (fst m) \<and> strip (fst m) = fst m \<and> strip (fst m) \<noteq> []"
proof -
  assume "m \<in> set (finditer text)"
  then have "word_name (fst m)" using finditer_blocks[of "fst m" "snd m" "text"] by simp
  then show ?thesis by (simp add: strip_word_name) (simp add: word_name_def)
qed

lemma load_templates_finditer:
  assumes "files path = Some text"
  shows "(\<forall>(n, c) \<in> set (finditer text).
            word_name n \<and> strip n = n \<and>
            (\<exists>pre post. text = pre @ block_text n c @ post \<and>
               (\<forall>u w. c @ close_tag n @ post = u @ close_tag n @ w \<longrightarrow> length c \<le> length u)))
       \<and> (finditer text = [] \<longleftrightarrow>
            \<not> (\<exists>pre n c post. text = pre @ block_text n c @ post \<and> word_name n))
       \<and> (finditer text = [] \<longrightarrow> load_templates files path = Inl ParseError)
       \<and> (finditer text \<noteq> [] \<longrightarrow>
            (\<exists>templates. load_templates files path = Inr templates
               \<and> distinct (map fst templates)
               \<and> set (map fst templates) = (\<lambda>b. strip (fst b)) ` set (finditer text)
               \<and> (\<forall>k \<in> set (map fst templates).
                     map_of templates k =
                     Some (strip (snd (last (filter (\<lambda>b. strip (fst b) = k) (finditer text))))))))"
proof (intro conjI)
  show "\<forall>(n, c) \<in> set (finditer text).
            word_name n \<and> strip n = n \<and>
            (\<exists>pre post. text = pre @ block_text n c @ post \<and>
               (\<forall>u w. c @ close_tag n @ post = u @ close_tag n @ w \<longrightarrow> length c \<le> length u))"
    using finditer_blocks[of _ _ "text"] finditer_names[of _ "text"] by fastforce
  show "finditer text = [] \<longleftrightarrow>
            \<not> (\<exists>pre n c post. text = pre @ block_text n c @ post \<and> word_name n)"
    by (rule finditer_Nil_no_block)
  show "finditer text = [] \<longrightarrow> load_templates files path = Inl ParseError"
    using assms by (simp add: load_templates_def)
  show "finditer text \<noteq> [] \<longrightarrow>
            (\<exists>templates. load_templates files path = Inr templates
               \<and> distinct (map fst templates)
               \<and> set (map fst templates) = (\<lambda>b. strip (fst b)) ` set (finditer text)
               \<and> (\<forall>k \<in> set (map fst templates).
                     map_of templates k =
                     Some (strip (snd (last (filter (\<lambda>b. strip (fst b) = k) (finditer text)))))))"
  proof
    assume ne: "finditer text \<noteq> []"
    let ?d = "foldl add_template [] (finditer text)"
    have names: "\<forall>m\<in>set (finditer text). strip (fst m) \<noteq> []"
      using finditer_names by blast
    have keys: "set (map fst ?d) = (\<lambda>b. strip (fst b)) ` set (finditer text)"
      by (rule keys_foldl_add_template[OF names])
    with ne have "?d \<noteq> []" by (cases "finditer text") auto
    then have l: "load_templates files path = Inr ?d"
      using assms by (simp add: load_templates_def Let_def)
    have d: "distinct (map fst ?d)" by (rule distinct_foldl_add_template) simp
    have v: "map_of ?d k = Some (strip (snd (last (filter (\<lambda>b. strip (fst b) = k) (finditer text)))))"
      if "k \<in> set (map fst ?d)" for k
    proof -
      from that keys have "filter (\<lambda>b. strip (fst b) = k) (finditer text) \<noteq> []"
        by (auto simp: filter_empty_conv)
      then show ?thesis
        using map_of_foldl_add_template[OF names, of "[]" k] by simp
    qed
    from l d keys v show "\<exists>templates. load_templates files path = Inr templates
               \<and> distinct (map fst templates)
               \<and> set (map fst templates) = (\<lambda>b. strip (fst b)) ` set (finditer text)
               \<and> (\<forall>k \<in> set (map fst templates).
                     map_of templates k =
                     Some (strip (snd (last (filter (\<lambda>b. strip (fst b) = k) (finditer text))))))"
      by blast
  qed
qed

lemma word_name_no_gt: "word_name n \<Longrightarrow> CHR ''>'' \<notin> set n"
  by (auto simp: word_name_def list_all_iff is_word_def)

lemma block_name_unique:
  assumes "block_text n c @ post = block_text n' c' @ post'" "word_name n" "word_name n'"
  shows "n = n'"
proof -
  from assms(1) have e: "n @ CHR ''>'' # (c @ close_tag n @ post) = n' @ CHR ''>'' # (c' @ close_tag n' @ post')"
    by (simp add: block_text_def)
  then have "prefix (n @ [CHR ''>'']) (n' @ CHR ''>'' # (c' @ close_tag n' @ post'))"
    by (metis append.assoc append_Cons append_Nil prefixI)
  from prefix_sentinel[OF word_name_no_gt[OF assms(2)] word_name_no_gt[OF assms(3)] this]
  show ?thesis .
qed

lemma match_block_first:
  assumes "word_name n"
    and "\<forall>u w. c @ close_tag n @ post = u @ close_tag n @ w \<longrightarrow> length c \<le> length u"
  shows "match_block (block_text n c @ post) = Some (n, c, post)"
proof -
  from match_block_complete[OF assms(1), of c post]
  obtain n' c' rest where m: "match_block (block_text n c @ post) = Some (n', c', rest)"
    by (cases "match_block (block_text n c @ post)") auto
  note f = match_block_Some[OF m]
  from block_name_unique[OF f(1) assms(1) f(2)] have n: "n' = n" by simp
  from f(1) n have e: "c @ close_tag n @ post = c' @ close_tag n @ rest"
    by (simp add: block_text_def)
  from assms(2) e have 1: "length c \<le> length c'" by blast
  from f(3)[of c post] n e have 2: "length c' \<le> length c" by simp
  from 1 2 e have "c' = c" by (metis append_eq_append_conv le_antisym)
  with e have "rest = post" by simp
  with m n \<open>c' = c\<close> show ?thesis by simp
qed

lemma finditer_first:
  assumes "s = pre @ block_text n c @ post" "word_name n"
    and "\<forall>pre' n' c' post'. s = pre' @ block_text n' c' @ post' \<and> word_name n' \<longrightarrow>
           length pre \<le> length pre'"
    and "\<forall>u w. c @ close_tag n @ post = u @ close_tag n @ w \<longrightarrow> length c \<le> length u"
  shows "finditer s = (n, c) # finditer post"
  using assms(1,3)
proof (induction pre arbitrary: s)
  case Nil
  then have s: "s = block_text n c @ post" by simp
  have ne: "block_text n c @ post \<noteq> []" by (simp add: block_text_def)
  then obtain a l where al: "block_text n c @ post = a # l" by (cases "block_text n c @ post") auto
  from match_block_first[OF assms(2,4)] al have "match_block (a # l) = Some (n, c, post)" by simp
  then have "finditer (a # l) = (n, c) # finditer post" by simp
  with s al show ?case by simp
next
  case (Cons a p)
  then have s: "s = a # (p @ block_text n c @ post)" by simp
  have none: "match_block s = None"
  proof (rule ccontr)
    assume "match_block s \<noteq> None"
    then obtain n' c' rest where "match_block s = Some (n', c', rest)" by auto
    from match_block_Some(1,2)[OF this] have "s = [] @ block_text n' c' @ rest" "word_name n'"
      by simp_all
    with Cons.prems(2) have "length (a # p) \<le> length ([] :: string)" by blast
    then show False by simp
  qed
  have first: "\<forall>pre' n' c' post'. p @ block_text n c @ post = pre' @ block_text n' c' @ post' \<and>
                 word_name n' \<longrightarrow> length p \<le> length pre'"
  proof (intro allI impI)
    fix pre' n' c' post'
    assume h: "p @ block_text n c @ post = pre' @ block_text n' c' @ post' \<and> word_name n'"
    then have "s = (a # pre') @ block_text n' c' @ post'" using s by simp
    with h Cons.prems(2) have "length (a # p) \<le> length (a # pre')" by blast
    then show "length p \<le> length pre'" by simp
  qed
  from Cons.IH[OF refl first] have "finditer (p @ block_text n c @ post) = (n, c) # finditer post" .
  with none s show ?case by simp
qed

lemma scan_blocks_finditer: "scan_blocks s ms \<Longrightarrow> ms = finditer s"
proof (induction rule: scan_blocks.induct)
  case (scan_done s)
  then have "finditer s = []" by (rule finditer_Nil_no_block[THEN iffD2])
  then show ?case by simp
next
  case (scan_found s pre n c post ms)
  from finditer_first[OF scan_found(1,2,3,4)] scan_found.IH show ?case by simp
qed

lemma finditer_Cons_first:
  "finditer s = (n, c) # ms \<Longrightarrow>
   \<exists>pre post. s = pre @ block_text n c @ post \<and> word_name n \<and>
     (\<forall>pre' n' c' post'. s = pre' @ block_text n' c' @ post' \<and> word_name n' \<longrightarrow>
        length pre \<le> length pre') \<and>
     (\<forall>u w. c @ close_tag n @ post = u @ close_tag n @ w \<longrightarrow> length c \<le> length u) \<and>
     ms = finditer post"
proof (induction s rule: finditer.induct)
  case 1
  then show ?case by simp
next
  case (2 a cs)
  show ?case
  proof (cases "match_block (a # cs)")
    case None
    with 2(3) have "finditer cs = (n, c) # ms" by simp
    from 2(1)[OF None this] obtain pre post where p: "cs = pre @ block_text n c @ post"
      "word_name n"
      and first: "\<forall>pre' n' c' post'. cs = pre' @ block_text n' c' @ post' \<and> word_name n' \<longrightarrow>
        length pre \<le> length pre'"
      and short: "\<forall>u w. c @ close_tag n @ post = u @ close_tag n @ w \<longrightarrow> length c \<le> length u"
      and ms: "ms = finditer post" by blast
    have "length (a # pre) \<le> length pre'"
      if h: "a # cs = pre' @ block_text n' c' @ post'" "word_name n'" for pre' n' c' post'
    proof (cases pre')
      case Nil
      with h match_block_complete[OF h(2), of c' post'] None show ?thesis by simp
    next
      case (Cons b p')
      with h have "cs = p' @ block_text n' c' @ post'" by simp
      with first h(2) have "length pre \<le> length p'" by blast
      with Cons show ?thesis by simp
    qed
    moreover have "a # cs = (a # pre) @ block_text n c @ post" using p(1) by simp
    ultimately show ?thesis using p(2) short ms by blast
  next
    case (Some r)
    obtain n' c' rest where r: "r = (n', c', rest)" by (cases r)
    note mb = match_block_Some[OF Some[unfolded r]]
    from 2(3) Some r have e: "n' = n" "c' = c" "ms = finditer rest" by simp_all
    have "a # cs = [] @ block_text n c @ rest" using mb(1) e by simp
    moreover have "\<forall>u w. c @ close_tag n @ rest = u @ close_tag n @ w \<longrightarrow> length c \<le> length u"
      using mb(3) e by blast
    moreover have "\<forall>pre' n' c' post'. a # cs = pre' @ block_text n' c' @ post' \<and> word_name n' \<longrightarrow>
        length ([] :: string) \<le> length pre'" by simp
    ultimately show ?thesis using mb(2) e by blast
  qed
qed

lemma finditer_scan_blocks: "scan_blocks s (finditer s)"
proof (induction "finditer s" arbitrary: s)
  case Nil
  then have e: "finditer s = []" by simp
  then have "\<not> (\<exists>pre n c post. s = pre @ block_text n c @ post \<and> word_name n)"
    by (rule finditer_Nil_no_block[THEN iffD1])
  then have "scan_blocks s []" by (rule scan_done)
  with e show ?case by simp
next
  case (Cons b ms)
  obtain n c where b: "b = (n, c)" by (cases b)
  from Cons(2) b have f: "finditer s = (n, c) # ms" by simp
  from finditer_Cons_first[OF f] obtain pre post where p: "s = pre @ block_text n c @ post"
    "word_name n"
    "\<forall>pre' n' c' post'. s = pre' @ block_text n' c' @ post' \<and> word_name n' \<longrightarrow>
        length pre \<le> length pre'"
    "\<forall>u w. c @ close_tag n @ post = u @ close_tag n @ w \<longrightarrow> length c \<le> length u"
    "ms = finditer post" by blast
  from Cons(1)[OF p(5)] have "scan_blocks post (finditer post)" .
  from scan_found[OF p(1,2,3,4) this] f p(5) show ?case by simp
qed

text \<open>
  Claim C2, as amended.  With \<open>text\<close> the content of the template file, the scan of the text
  from left to right finds one list of blocks.  Their names are non-empty runs of word
  characters, so each name is its own trimmed form.  When the scan finds no block, which is
  when the text holds no well-formed block at all, \<open>load_templates\<close> fails with \<open>ParseError\<close>.
  Otherwise it returns a mapping whose keys are exactly the trimmed names of the blocks found
  and which maps each key to the trimmed inner text of the last block found with that name.
\<close>

theorem load_templates_scanned_blocks:
  assumes "files path = Some text"
  shows "(\<exists>ms. scan_blocks text ms)
       \<and> (\<forall>ms ms'. scan_blocks text ms \<and> scan_blocks text ms' \<longrightarrow> ms = ms')
       \<and> (\<forall>ms. scan_blocks text ms \<longrightarrow>
            (\<forall>b \<in> set ms. word_name (fst b) \<and> strip (fst b) = fst b)
          \<and> (ms = [] \<longleftrightarrow>
               \<not> (\<exists>pre n c post. text = pre @ block_text n c @ post \<and> word_name n))
          \<and> (ms = [] \<longrightarrow> load_templates files path = Inl ParseError)
          \<and> (ms \<noteq> [] \<longrightarrow>
               (\<exists>templates. load_templates files path = Inr templates
                  \<and> distinct (map fst templates)
                  \<and> set (map fst templates) = (\<lambda>b. strip (fst b)) ` set ms
                  \<and> (\<forall>k \<in> set (map fst templates).
                        map_of templates k =
                        Some (strip (snd (last (filter (\<lambda>b. strip (fst b) = k) ms))))))))"
proof (intro conjI allI impI)
  show "\<exists>ms. scan_blocks text ms" using finditer_scan_blocks by blast
next
  fix ms ms' assume "scan_blocks text ms \<and> scan_blocks text ms'"
  then show "ms = ms'" using scan_blocks_finditer by blast
next
  fix ms assume "scan_blocks text ms"
  then have ms: "ms = finditer text" by (rule scan_blocks_finditer)
  note f = load_templates_finditer[of files path "text", OF assms]
  show "\<forall>b \<in> set ms. word_name (fst b) \<and> strip (fst b) = fst b"
    unfolding ms using finditer_names[of _ "text"] by blast
  show "ms = [] \<longleftrightarrow> \<not> (\<exists>pre n c post. text = pre @ block_text n c @ post \<and> word_name n)"
    unfolding ms by (rule finditer_Nil_no_block)
  show "load_templates files path = Inl ParseError" if "ms = []"
    using that f unfolding ms by blast
  show "\<exists>templates. load_templates files path = Inr templates
                  \<and> distinct (map fst templates)
                  \<and> set (map fst templates) = (\<lambda>b. strip (fst b)) ` set ms
                  \<and> (\<forall>k \<in> set (map fst templates).
                        map_of templates k =
                        Some (strip (snd (last (filter (\<lambda>b. strip (fst b) = k) ms)))))"
    if "ms \<noteq> []"
    using that f[THEN conjunct2, THEN conjunct2, THEN conjunct2] unfolding ms by blast
qed

text \<open>
  C2 (amended) on a file with two blocks of the same name, their inner texts surrounded by
  blanks and a line break: the later block gives the value, trimmed.
\<close>

theorem load_templates_scanned_blocks_witness:
  "scan_blocks ''<bug> a </bug>x<bug> b\<newline></bug>'' [(''bug'', '' a ''), (''bug'', '' b\<newline>'')]
   \<and> (\<exists>templates.
         load_templates (\<lambda>p. Some ''<bug> a </bug>x<bug> b\<newline></bug>'') ''resources/templates.txt''
           = Inr templates
         \<and> set (map fst templates) = {''bug''}
         \<and> map_of templates ''bug'' = Some ''b'')"
proof -
  let ?t = "''<bug> a </bug>x<bug> b\<newline></bug>''"
  let ?ms = "[(''bug'', '' a ''), (''bug'', '' b\<newline>'')]"
  have f: "finditer ?t = ?ms"
    by (simp add: match_block_def is_word_def close_tag_def)
  have sc: "scan_blocks ?t ?ms" using finditer_scan_blocks[of ?t] unfolding f .
  have s: "strip ''bug'' = ''bug''" "strip '' b\<newline>'' = ''b''"
    by (simp_all add: strip_def is_space_def)
  note th = load_templates_scanned_blocks[of "\<lambda>p. Some ?t" "''resources/templates.txt''" ?t,
      OF refl, THEN conjunct2, THEN conjunct2, rule_format, OF sc]
  have ne: "?ms \<noteq> []" by simp
  from th ne obtain templates where
    l: "load_templates (\<lambda>p. Some ?t) ''resources/templates.txt'' = Inr templates"
    and k: "set (map fst templates) = (\<lambda>b. strip (fst b)) ` set ?ms"
    and v: "\<forall>k \<in> set (map fst templates).
                     map_of templates k =
                     Some (strip (snd (last (filter (\<lambda>b. strip (fst b) = k) ?ms))))"
    by blast
  from k have k': "set (map fst templates) = {''bug''}" by (simp add: s)
  with v have "map_of templates ''bug'' =
     Some (strip (snd (last (filter (\<lambda>b. strip (fst b) = ''bug'') ?ms))))" by blast
  then have "map_of templates ''bug'' = Some ''b''" by (simp add: s)
  with sc l k' show ?thesis by blast
qed

text \<open>
  Claim C2 as stated fails: the text holds the well-formed block \<open><b>x</b>\<close> inside the
  block \<open><a>...</a>\<close>.  The scan resumes after the closing tag of \<open>a\<close>, so the block named
  \<open>b\<close> is not found and \<open>b\<close> is not a key of the mapping.
\<close>

theorem nested_block_not_a_key_counterexample:
  "load_templates (\<lambda>p. Some ''<a><b>x</b></a>'') ''resources/templates.txt''
     = Inr [(''a'', ''<b>x</b>'')]
   \<and> ''<a><b>x</b></a>'' = ''<a>'' @ block_text ''b'' ''x'' @ ''</a>''
   \<and> word_name ''b''"
  by (simp add: load_templates_def match_block_def is_word_def close_tag_def add_template_def
      strip_def is_space_def block_text_def word_name_def Let_def)

section \<open>Facts about trimming\<close>

lemma strip_Nil [simp]: "strip [] = []"
  by (simp add: strip_def)

lemma strip_prefix: "\<exists>ys. dropWhile is_space s = strip s @ ys"
proof -
  let ?u = "dropWhile is_space s"
  have "rev ?u = takeWhile is_space (rev ?u) @ dropWhile is_space (rev ?u)" by simp
  then have "?u = rev (dropWhile is_space (rev ?u)) @ rev (takeWhile is_space (rev ?u))"
    by (metis rev_append rev_rev_ident)
  then show ?thesis unfolding strip_def by blast
qed

lemma strip_no_leading: "strip s \<noteq> [] \<Longrightarrow> \<not> is_space (hd (strip s))"
proof -
  assume ne: "strip s \<noteq> []"
  obtain ys where u: "dropWhile is_space s = strip s @ ys" using strip_prefix by blast
  with ne have "dropWhile is_space s \<noteq> []" by auto
  then have "\<not> is_space (hd (dropWhile is_space s))" by (rule hd_dropWhile)
  with u ne show ?thesis by simp
qed

lemma strip_no_trailing: "strip s \<noteq> [] \<Longrightarrow> \<not> is_space (last (strip s))"
proof -
  assume ne: "strip s \<noteq> []"
  let ?r = "dropWhile is_space (rev (dropWhile is_space s))"
  from ne have "?r \<noteq> []" by (simp add: strip_def)
  then have "\<not> is_space (hd ?r)" by (rule hd_dropWhile)
  moreover have "last (strip s) = hd ?r" using \<open>?r \<noteq> []\<close> by (simp add: strip_def last_rev)
  ultimately show ?thesis by simp
qed

lemma strip_trimmed:
  assumes "s = [] \<or> (\<not> is_space (hd s) \<and> \<not> is_space (last s))"
  shows "strip s = s"
proof (cases s)
  case Nil
  then show ?thesis by simp
next
  case (Cons a l)
  with assms have h: "\<not> is_space a" and t: "\<not> is_space (last s)" by simp_all
  have 1: "dropWhile is_space s = s" using Cons h by simp
  have "rev s \<noteq> []" "hd (rev s) = last s" using Cons by (simp_all add: hd_rev)
  then obtain b m where r: "rev s = b # m" and b: "b = last s" by (cases "rev s") auto
  have 2: "dropWhile is_space (rev s) = rev s" unfolding r using t b by simp
  show ?thesis by (simp add: strip_def 1 2)
qed

lemma strip_strip [simp]: "strip (strip s) = strip s"
  using strip_trimmed[of "strip s"] strip_no_leading[of s] strip_no_trailing[of s] by blast

lemma strip_append_space:
  assumes "is_space c"
  shows "strip (s @ [c]) = strip s"
proof (cases "\<forall>x\<in>set s. is_space x")
  case True
  then have "\<forall>x\<in>set (s @ [c]). is_space x" using assms by simp
  then have a: "dropWhile is_space (s @ [c]) = []" by (rule dropWhile_eq_Nil_conv[THEN iffD2])
  have b: "dropWhile is_space s = []" using True by (rule dropWhile_eq_Nil_conv[THEN iffD2])
  show ?thesis unfolding strip_def a b by simp
next
  case False
  then have "dropWhile is_space (s @ [c]) = dropWhile is_space s @ [c]"
    by (auto simp: dropWhile_append1)
  then show ?thesis using assms by (simp add: strip_def)
qed

lemma strip_text_get: "strip (text_get s) = strip s"
  unfolding text_get_def by (rule strip_append_space) (simp add: is_space_def)

section \<open>LLM client\<close>

lemma example_key: "getenv_or example_env ''OPENROUTER_API_KEY'' ''API_KEY'' = Some ''sk-example''"
  by (simp add: getenv_or_def example_env_def)

lemma call_llm_no_key:
  assumes "getenv_or env ''OPENROUTER_API_KEY'' ''API_KEY'' = None
           \<or> getenv_or env ''OPENROUTER_API_KEY'' ''API_KEY'' = Some []"
  shows "call_llm env net prompt model_name = (Inl ConfigurationError, [])"
  using assms by (auto simp: call_llm_def)

lemma call_llm_returns:
  assumes "getenv_or env ''OPENROUTER_API_KEY'' ''API_KEY'' = Some k" "k \<noteq> []"
    and "\<And>req. net req = Returns r" "\<not> (400 \<le> status_code r \<and> status_code r < 600)"
    and "json_body r = Some data"
  shows "fst (call_llm env net prompt model_name) =
         (case except_key_index (read_content data) of
            Inl e \<Rightarrow> Inl e
          | Inr v \<Rightarrow> method_strip v)"
  using assms by (auto simp: call_llm_def Let_def raise_for_status_def response_json_def)


lemma call_llm_content_missing:
  assumes "getenv_or env ''OPENROUTER_API_KEY'' ''API_KEY'' = Some k" "k \<noteq> []"
    and "\<And>req. net req = Returns r" "\<not> (400 \<le> status_code r \<and> status_code r < 600)"
    and "json_body r = Some data"
    and "read_content data = Inl (KeyError key) \<or> read_content data = Inl (IndexError m)"
  shows "fst (call_llm env net prompt model_name) = Inl ProtocolError"
  using call_llm_returns[OF assms(1-5)] assms(6) by auto

lemma read_content_chat_completion: "read_content (chat_completion v) = Inr v"
  by (simp add: read_content_def chat_completion_def)

text \<open>
  Claim C4 on the failing input: the response is a chat-completion payload whose
  \<open>choices[0].message.content\<close> is \<open>null\<close>.  The subscripts succeed, so the handler for
  \<open>KeyError\<close> and \<open>IndexError\<close> is not entered, and \<open>text.strip()\<close> raises \<open>AttributeError\<close>: the
  call does not fail with the \<open>RuntimeError\<close> of an invalid response.
\<close>

theorem call_llm_null_content:
  "read_content (chat_completion PNone) = Inr PNone
   \<and> fst (call_llm example_env (net_returns (chat_completion PNone)) prompt model_name)
       = Inl (AttributeError ([CHR 0x27] @ ''NoneType'' @ [CHR 0x27] @
                              '' object has no attribute '' @ [CHR 0x27] @ ''strip'' @ [CHR 0x27]))
   \<and> fst (call_llm example_env (net_returns (chat_completion PNone)) prompt model_name)
       \<noteq> Inl ProtocolError"
proof -
  have "fst (call_llm example_env (net_returns (chat_completion PNone)) prompt model_name) =
        (case except_key_index (read_content (chat_completion PNone)) of
            Inl e \<Rightarrow> Inl e
          | Inr v \<Rightarrow> method_strip v)"
    by (rule call_llm_returns[OF example_key, where r = "\<lparr>status_code = 200,
          json_body = Some (chat_completion PNone)\<rparr>"]) (simp_all add: net_returns_def)
  then show ?thesis by (simp add: read_content_chat_completion ProtocolError_def)
qed

section \<open>Response extractor\<close>

lemma extract_tag_content_total:
  "tag_atoms tag_name = Some tag \<Longrightarrow> \<exists>r. extract_tag_content re_other text tag_name = Inr r"
  by (simp add: extract_tag_content_def split: option.splits)

lemma workflow_tags:
  "tag_atoms ''card'' = Some (map Lit ''card'')"
  "tag_atoms ''info_validacao'' = Some (map Lit ''info_validacao'')"
  "tag_atoms ''analise'' = Some (map Lit ''analise'')"
  by (simp_all add: tag_atoms_def re_special_def)

lemma extract_scenarios:
  "extract_tag_content re_other ''<card>Bug: login fails</card>'' ''card'' = Inr ''Bug: login fails''"
  "extract_tag_content re_other ''Bug: login fails'' ''card'' = Inr ''Bug: login fails''"
  by (simp_all add: extract_tag_content_def workflow_tags match_tag_at_def match_open_def
      match_close_def match_name_gt_def List.map_filter_def is_space_def lower_def strip_def)

text \<open>
  Claim C3 on the failing input: the tag name is a dot.  The name is inserted into the pattern
  unescaped, where a dot matches any character, so the search finds \<open><x>\<close> as the opening
  and \<open></y>\<close> as the closing tag and returns the text between them, although the text holds
  no tag named by a dot; the trimmed original text is not what is returned.
\<close>

theorem extract_tag_content_dot:
  "extract_tag_content re_other ''<x>inner</y>'' ''.'' = Inr ''inner''
   \<and> strip ''<x>inner</y>'' = ''<x>inner</y>''"
  by (simp add: extract_tag_content_def tag_atoms_def re_special_def match_tag_at_def
      match_open_def match_close_def match_name_gt_def List.map_filter_def is_space_def strip_def)

section \<open>The worker\<close>


lemma worker_raises:
  assumes "getenv_or env ''OPENROUTER_API_KEY'' ''API_KEY'' = Some k" "k \<noteq> []"
  shows "fst (worker env re_other (net_raises e) j) =
         \<lparr>error = Some (exn_str e), llm_clean = [], done_widget = job_widget j,
          done_task = job_task j\<rparr>"
  using assms by (simp add: worker_def call_llm_def net_raises_def Let_def)

section \<open>Response extractor: tag names without operators\<close>

lemma after_spaces_iff:
  "r \<in> set (after_spaces s) \<longleftrightarrow> (\<exists>ws. s = ws @ r \<and> list_all is_space ws)"
proof (induction s)
  case Nil
  then show ?case by auto
next
  case (Cons c cs)
  show ?case
  proof (cases "is_space c")
    case True
    have "(\<exists>ws. c # cs = ws @ r \<and> list_all is_space ws)
          \<longleftrightarrow> r = c # cs \<or> (\<exists>ws. cs = ws @ r \<and> list_all is_space ws)"
    proof
      assume "\<exists>ws. c # cs = ws @ r \<and> list_all is_space ws"
      then obtain ws where w: "c # cs = ws @ r" "list_all is_space ws" by blast
      show "r = c # cs \<or> (\<exists>ws. cs = ws @ r \<and> list_all is_space ws)"
      proof (cases ws)
        case Nil
        with w show ?thesis by simp
      next
        case (Cons a ws')
        with w have "cs = ws' @ r" "list_all is_space ws'" by simp_all
        then show ?thesis by blast
      qed
    next
      assume "r = c # cs \<or> (\<exists>ws. cs = ws @ r \<and> list_all is_space ws)"
      then show "\<exists>ws. c # cs = ws @ r \<and> list_all is_space ws"
      proof
        assume "r = c # cs"
        then have "c # cs = [] @ r \<and> list_all is_space []" by simp
        then show ?thesis by blast
      next
        assume "\<exists>ws. cs = ws @ r \<and> list_all is_space ws"
        then obtain ws where "cs = ws @ r" "list_all is_space ws" by blast
        with True have "c # cs = (c # ws) @ r \<and> list_all is_space (c # ws)" by simp
        then show ?thesis by blast
      qed
    qed
    with True Cons.IH show ?thesis by auto
  next
    case False
    have "(\<exists>ws. c # cs = ws @ r \<and> list_all is_space ws) \<longleftrightarrow> r = c # cs"
    proof
      assume "\<exists>ws. c # cs = ws @ r \<and> list_all is_space ws"
      then obtain ws where w: "c # cs = ws @ r" "list_all is_space ws" by blast
      with False show "r = c # cs" by (cases ws) auto
    next
      assume "r = c # cs"
      then have "c # cs = [] @ r \<and> list_all is_space []" by simp
      then show "\<exists>ws. c # cs = ws @ r \<and> list_all is_space ws" by blast
    qed
    with False show ?thesis by simp
  qed
qed

lemma match_atoms_Lit:
  "match_atoms (map Lit tag) s = Some r \<longleftrightarrow> (\<exists>nm. s = nm @ r \<and> tag_like tag nm)"
proof (induction tag arbitrary: s)
  case Nil
  then show ?case by (auto simp: tag_like_def)
next
  case (Cons t ts)
  show ?case
  proof (cases s)
    case Nil
    then show ?thesis by (auto simp: tag_like_def)
  next
    case (Cons c cs)
    have "(\<exists>nm. c # cs = nm @ r \<and> tag_like (t # ts) nm)
          \<longleftrightarrow> lower c = lower t \<and> (\<exists>nm. cs = nm @ r \<and> tag_like ts nm)"
    proof
      assume "\<exists>nm. c # cs = nm @ r \<and> tag_like (t # ts) nm"
      then obtain nm where n: "c # cs = nm @ r" "tag_like (t # ts) nm" by blast
      then obtain a nm' where "nm = a # nm'" by (cases nm) (auto simp: tag_like_def)
      with n have "lower c = lower t" "cs = nm' @ r" "tag_like ts nm'"
        by (auto simp: tag_like_def)
      then show "lower c = lower t \<and> (\<exists>nm. cs = nm @ r \<and> tag_like ts nm)" by blast
    next
      assume "lower c = lower t \<and> (\<exists>nm. cs = nm @ r \<and> tag_like ts nm)"
      then obtain nm where "lower c = lower t" "cs = nm @ r" "tag_like ts nm" by blast
      then have "c # cs = (c # nm) @ r \<and> tag_like (t # ts) (c # nm)"
        by (simp add: tag_like_def)
      then show "\<exists>nm. c # cs = nm @ r \<and> tag_like (t # ts) nm" by blast
    qed
    with Cons Cons.IH[of cs] show ?thesis by simp
  qed
qed

lemma match_name_gt_set:
  "r \<in> set (match_name_gt t s) \<longleftrightarrow>
   (\<exists>s2 s3. s2 \<in> set (after_spaces s) \<and> match_atoms t s2 = Some s3 \<and>
       CHR ''>'' # r \<in> set (after_spaces s3))"
proof
  assume "r \<in> set (match_name_gt t s)"
  then obtain s2 s3 where "s2 \<in> set (after_spaces s)" "Some s3 = match_atoms t s2"
    "CHR ''>'' # r \<in> set (after_spaces s3)"
    by (auto simp: match_name_gt_def split: option.splits list.splits if_splits)
  then show "\<exists>s2 s3. s2 \<in> set (after_spaces s) \<and> match_atoms t s2 = Some s3 \<and>
       CHR ''>'' # r \<in> set (after_spaces s3)" by metis
next
  assume "\<exists>s2 s3. s2 \<in> set (after_spaces s) \<and> match_atoms t s2 = Some s3 \<and>
       CHR ''>'' # r \<in> set (after_spaces s3)"
  then obtain s2 s3 where a: "s2 \<in> set (after_spaces s)" and m: "match_atoms t s2 = Some s3"
    and b: "CHR ''>'' # r \<in> set (after_spaces s3)" by blast
  have "r \<in> set (concat (map (\<lambda>s4. case s4 of [] \<Rightarrow> []
          | d # s5 \<Rightarrow> if d = CHR ''>'' then [s5] else []) (after_spaces s3)))"
    using b by (auto intro!: bexI[where x = "CHR ''>'' # r"])
  then show "r \<in> set (match_name_gt t s)"
    unfolding match_name_gt_def using a m by (auto intro!: bexI[where x = s2])
qed

lemma match_name_gt_iff:
  "r \<in> set (match_name_gt (map Lit tag) s) \<longleftrightarrow>
   (\<exists>ws1 nm ws2. s = ws1 @ nm @ ws2 @ CHR ''>'' # r \<and>
      list_all is_space ws1 \<and> list_all is_space ws2 \<and> tag_like tag nm)"
proof
  assume "r \<in> set (match_name_gt (map Lit tag) s)"
  then obtain s2 s3 where a: "s2 \<in> set (after_spaces s)"
    and m: "match_atoms (map Lit tag) s2 = Some s3"
    and b: "CHR ''>'' # r \<in> set (after_spaces s3)"
    unfolding match_name_gt_set by blast
  from a obtain ws1 where 1: "s = ws1 @ s2" "list_all is_space ws1"
    by (auto simp: after_spaces_iff)
  from m obtain nm where 2: "s2 = nm @ s3" "tag_like tag nm" by (auto simp: match_atoms_Lit)
  from b obtain ws2 where 3: "s3 = ws2 @ CHR ''>'' # r" "list_all is_space ws2"
    by (auto simp: after_spaces_iff)
  from 1 2 3 show "\<exists>ws1 nm ws2. s = ws1 @ nm @ ws2 @ CHR ''>'' # r \<and>
      list_all is_space ws1 \<and> list_all is_space ws2 \<and> tag_like tag nm" by auto
next
  assume "\<exists>ws1 nm ws2. s = ws1 @ nm @ ws2 @ CHR ''>'' # r \<and>
      list_all is_space ws1 \<and> list_all is_space ws2 \<and> tag_like tag nm"
  then obtain ws1 nm ws2 where s: "s = ws1 @ nm @ ws2 @ CHR ''>'' # r"
    and w: "list_all is_space ws1" "list_all is_space ws2" and n: "tag_like tag nm" by blast
  have a: "nm @ ws2 @ CHR ''>'' # r \<in> set (after_spaces s)"
    using s w(1) by (auto simp: after_spaces_iff)
  have m: "match_atoms (map Lit tag) (nm @ ws2 @ CHR ''>'' # r) = Some (ws2 @ CHR ''>'' # r)"
    using n by (auto simp: match_atoms_Lit)
  have b: "CHR ''>'' # r \<in> set (after_spaces (ws2 @ CHR ''>'' # r))"
    using w(2) by (auto simp: after_spaces_iff)
  show "r \<in> set (match_name_gt (map Lit tag) s)"
    unfolding match_name_gt_set using a m b by blast
qed

lemma match_open_iff:
  "r \<in> set (match_open (map Lit tag) s) \<longleftrightarrow> (\<exists>u. s = u @ r \<and> opening_tag tag u)"
proof
  assume "r \<in> set (match_open (map Lit tag) s)"
  then obtain s1 where "s = CHR ''<'' # s1" "r \<in> set (match_name_gt (map Lit tag) s1)"
    by (auto simp: match_open_def split: list.splits if_splits)
  then obtain ws1 nm ws2 where "s = (''<'' @ ws1 @ nm @ ws2 @ ''>'') @ r"
    "list_all is_space ws1" "list_all is_space ws2" "tag_like tag nm"
    by (auto simp: match_name_gt_iff)
  then show "\<exists>u. s = u @ r \<and> opening_tag tag u" unfolding opening_tag_def by blast
next
  assume "\<exists>u. s = u @ r \<and> opening_tag tag u"
  then obtain ws1 nm ws2 where "s = CHR ''<'' # ws1 @ nm @ ws2 @ CHR ''>'' # r"
    "list_all is_space ws1" "list_all is_space ws2" "tag_like tag nm"
    by (auto simp: opening_tag_def)
  then show "r \<in> set (match_open (map Lit tag) s)"
    by (auto simp: match_open_def match_name_gt_iff)
qed

lemma match_close_iff:
  "match_close (map Lit tag) s \<noteq> [] \<longleftrightarrow> (\<exists>u r. s = u @ r \<and> closing_tag tag u)"
proof
  assume "match_close (map Lit tag) s \<noteq> []"
  then obtain s1 r where "s = CHR ''<'' # CHR ''/'' # s1" "r \<in> set (match_name_gt (map Lit tag) s1)"
    by (cases "match_close (map Lit tag) s")
       (auto simp: match_close_def split: list.splits if_splits)
  then obtain ws1 nm ws2 where "s = (''</'' @ ws1 @ nm @ ws2 @ ''>'') @ r"
    "list_all is_space ws1" "list_all is_space ws2" "tag_like tag nm"
    by (auto simp: match_name_gt_iff)
  then show "\<exists>u r. s = u @ r \<and> closing_tag tag u" unfolding closing_tag_def by blast
next
  assume "\<exists>u r. s = u @ r \<and> closing_tag tag u"
  then obtain ws1 nm ws2 r where s: "s = CHR ''<'' # CHR ''/'' # ws1 @ nm @ ws2 @ CHR ''>'' # r"
    and "list_all is_space ws1" "list_all is_space ws2" "tag_like tag nm"
    by (auto simp: closing_tag_def)
  then have "r \<in> set (match_name_gt (map Lit tag) (ws1 @ nm @ ws2 @ CHR ''>'' # r))"
    by (auto simp: match_name_gt_iff)
  then have "r \<in> set (match_close (map Lit tag) s)" using s by (simp add: match_close_def)
  then show "match_close (map Lit tag) s \<noteq> []" by auto
qed

lemma lazy_content_Some:
  "lazy_content t s = Some g \<Longrightarrow>
   \<exists>r. s = g @ r \<and> match_close t r \<noteq> [] \<and>
       (\<forall>g' r'. s = g' @ r' \<and> match_close t r' \<noteq> [] \<longrightarrow> length g \<le> length g')"
proof (induction s arbitrary: g)
  case Nil
  then show ?case by (auto split: if_splits)
next
  case (Cons c cs)
  show ?case
  proof (cases "match_close t (c # cs) \<noteq> []")
    case True
    with Cons.prems have "g = []" by simp
    with True show ?thesis by auto
  next
    case False
    with Cons.prems obtain g0 where g0: "lazy_content t cs = Some g0" "g = c # g0" by auto
    from Cons.IH[OF g0(1)] obtain r where r: "cs = g0 @ r" "match_close t r \<noteq> []"
      and mn: "\<forall>g' r'. cs = g' @ r' \<and> match_close t r' \<noteq> [] \<longrightarrow> length g0 \<le> length g'"
      by blast
    have "length g \<le> length g'" if h: "c # cs = g' @ r'" "match_close t r' \<noteq> []" for g' r'
    proof (cases g')
      case Nil
      with h False show ?thesis by simp
    next
      case (Cons a g'')
      with h have "cs = g'' @ r'" by simp
      with mn h(2) have "length g0 \<le> length g''" by blast
      with Cons g0(2) show ?thesis by simp
    qed
    with r g0(2) show ?thesis by auto
  qed
qed

lemma lazy_content_None:
  "lazy_content t s = None \<Longrightarrow> s = g @ r \<Longrightarrow> match_close t r = []"
proof (induction s arbitrary: g)
  case Nil
  then show ?case by (auto split: if_splits)
next
  case (Cons c cs)
  from Cons.prems(1) have n: "match_close t (c # cs) = []" "lazy_content t cs = None"
    by (auto split: if_splits)
  show ?case
  proof (cases g)
    case Nil
    with Cons.prems(2) n(1) show ?thesis by simp
  next
    case (Cons a g')
    with Cons.prems(2) have "cs = g' @ r" by simp
    from Cons.IH[OF n(2) this] show ?thesis .
  qed
qed

lemma match_tag_at_Some:
  "match_tag_at t s = Some g \<Longrightarrow> \<exists>e \<in> set (match_open t s). lazy_content t e = Some g"
proof -
  assume "match_tag_at t s = Some g"
  then have "g \<in> set (List.map_filter (lazy_content t) (match_open t s))"
    by (auto simp: match_tag_at_def split: list.splits)
  then show ?thesis by (auto simp: List.map_filter_def)
qed

lemma match_tag_at_unique:
  assumes "\<forall>e \<in> set (match_open t s). e = e0" "match_open t s \<noteq> []"
  shows "match_tag_at t s = lazy_content t e0"
proof -
  from assms obtain n where n: "match_open t s = replicate (Suc n) e0"
    by (metis replicate_length_same length_0_conv not0_implies_Suc)
  show ?thesis
    by (cases "lazy_content t e0") (simp_all add: match_tag_at_def n List.map_filter_def)
qed

lemma search_tag_None:
  "search_tag t s = None \<Longrightarrow> s = pre @ u \<Longrightarrow> match_tag_at t u = None"
proof (induction s arbitrary: pre)
  case Nil
  then show ?case by simp
next
  case (Cons c cs)
  from Cons.prems(1) have n: "match_tag_at t (c # cs) = None" "search_tag t cs = None"
    by (auto split: option.splits)
  show ?case
  proof (cases pre)
    case Nil
    with Cons.prems(2) n(1) show ?thesis by simp
  next
    case (Cons a pre')
    with Cons.prems(2) have "cs = pre' @ u" by simp
    from Cons.IH[OF n(2) this] show ?thesis .
  qed
qed

lemma search_tag_Some:
  "search_tag t s = Some g \<Longrightarrow>
   \<exists>pre u. s = pre @ u \<and> match_tag_at t u = Some g \<and>
     (\<forall>pre' u'. s = pre' @ u' \<and> length pre' < length pre \<longrightarrow> match_tag_at t u' = None)"
proof (induction s)
  case Nil
  then have "[] = [] @ [] \<and> match_tag_at t [] = Some g" by simp
  then show ?case by (metis length_greater_0_conv list.size(3) not_less0)
next
  case (Cons c cs)
  show ?case
  proof (cases "match_tag_at t (c # cs)")
    case (Some g')
    with Cons.prems have "c # cs = [] @ (c # cs) \<and> match_tag_at t (c # cs) = Some g" by simp
    then show ?thesis by (metis list.size(3) not_less0)
  next
    case None
    with Cons.prems have "search_tag t cs = Some g" by simp
    from Cons.IH[OF this] obtain pre u where p: "cs = pre @ u" "match_tag_at t u = Some g"
      and mn: "\<forall>pre' u'. cs = pre' @ u' \<and> length pre' < length pre \<longrightarrow> match_tag_at t u' = None"
      by blast
    have "match_tag_at t u' = None"
      if h: "c # cs = pre' @ u'" "length pre' < length (c # pre)" for pre' u'
    proof (cases pre')
      case Nil
      with h None show ?thesis by simp
    next
      case (Cons a p')
      with h have "cs = p' @ u'" "length p' < length pre" by simp_all
      with mn show ?thesis by blast
    qed
    moreover have "c # cs = (c # pre) @ u" using p(1) by simp
    ultimately show ?thesis using p(2) by blast
  qed
qed

lemma lower_gt: "lower c = CHR ''>'' \<longleftrightarrow> c = CHR ''>''"
proof
  assume l: "lower c = CHR ''>''"
  show "c = CHR ''>''"
  proof (cases "(65 \<le> (of_char c :: nat) \<and> (of_char c :: nat) \<le> 90) \<or>
                (192 \<le> (of_char c :: nat) \<and> (of_char c :: nat) \<le> 214) \<or>
                (216 \<le> (of_char c :: nat) \<and> (of_char c :: nat) \<le> 222)")
    case True
    then have "lower c = char_of ((of_char c :: nat) + 32)" by (simp add: lower_def Let_def)
    with l have "(of_char (char_of ((of_char c :: nat) + 32) :: char) :: nat) = of_char CHR ''>''"
      by simp
    then have "((of_char c :: nat) + 32) mod 256 = 62" by simp
    with True show ?thesis by auto
  next
    case False
    then have "lower c = c" by (auto simp: lower_def Let_def)
    with l show ?thesis by simp
  qed
next
  assume "c = CHR ''>''"
  then show "lower c = CHR ''>''" by (simp add: lower_def)
qed

lemma tag_like_gt:
  assumes "tag_like tag nm" "CHR ''>'' \<notin> set tag"
  shows "CHR ''>'' \<notin> set nm"
proof
  assume "CHR ''>'' \<in> set nm"
  then have "lower CHR ''>'' \<in> set (map lower nm)" by (simp del: map_eq_conv)
  with assms(1) have "lower CHR ''>'' \<in> set (map lower tag)" by (simp add: tag_like_def)
  then obtain t where "t \<in> set tag" "lower t = lower CHR ''>''" by auto
  then have "t = CHR ''>''" using lower_gt[of t] lower_gt[of "CHR ''>''"] by simp
  with \<open>t \<in> set tag\<close> assms(2) show False by simp
qed

lemma spaces_gt: "list_all is_space ws \<Longrightarrow> CHR ''>'' \<notin> set ws"
  by (auto simp: list_all_iff is_space_def)

lemma opening_form:
  assumes "opening_tag tag u" "CHR ''>'' \<notin> set tag"
  shows "\<exists>b. u = CHR ''<'' # b @ [CHR ''>''] \<and> CHR ''>'' \<notin> set b"
proof -
  from assms(1) obtain ws1 nm ws2 where u: "u = ''<'' @ ws1 @ nm @ ws2 @ ''>''"
    and w: "list_all is_space ws1" "list_all is_space ws2" and n: "tag_like tag nm"
    unfolding opening_tag_def by blast
  have "CHR ''>'' \<notin> set (ws1 @ nm @ ws2)"
    using spaces_gt[OF w(1)] spaces_gt[OF w(2)] tag_like_gt[OF n assms(2)] by simp
  moreover have "u = CHR ''<'' # (ws1 @ nm @ ws2) @ [CHR ''>'']" using u by simp
  ultimately show ?thesis by blast
qed

lemma opening_unique:
  assumes "CHR ''>'' \<notin> set tag" "opening_tag tag u" "opening_tag tag u'" "u @ r = u' @ r'"
  shows "u = u'" "r = r'"
proof -
  from opening_form[OF assms(2,1)] obtain b where b: "u = CHR ''<'' # b @ [CHR ''>'']"
    "CHR ''>'' \<notin> set b" by blast
  from opening_form[OF assms(3,1)] obtain b' where b': "u' = CHR ''<'' # b' @ [CHR ''>'']"
    "CHR ''>'' \<notin> set b'" by blast
  from assms(4) b(1) b'(1) have e: "b @ CHR ''>'' # r = b' @ CHR ''>'' # r'" by simp
  then have "prefix (b @ [CHR ''>'']) (b' @ CHR ''>'' # r')"
    by (metis append.assoc append_Cons append_Nil prefixI)
  from prefix_sentinel[OF b(2) b'(2) this] have "b = b'" .
  with b(1) b'(1) show "u = u'" by simp
  with assms(4) show "r = r'" by simp
qed

lemma literal_tag_atoms:
  assumes "\<forall>c\<in>set tag_name. \<not> re_special c"
  shows "tag_atoms tag_name = Some (map Lit tag_name)"
proof -
  have "\<forall>c\<in>set tag_name. c \<noteq> CHR ''.''" using assms by (auto simp: re_special_def)
  then have "map (\<lambda>c. if c = CHR ''.'' then AnyChar else Lit c) tag_name = map Lit tag_name"
    by (simp cong: map_cong)
  then show ?thesis using assms by (simp add: tag_atoms_def)
qed

lemma match_tag_at_occurrence:
  assumes "match_tag_at (map Lit tag) s = Some g"
  shows "\<exists>u v post. s = u @ g @ v @ post \<and> opening_tag tag u \<and> closing_tag tag v"
proof -
  from match_tag_at_Some[OF assms] obtain e where e: "e \<in> set (match_open (map Lit tag) s)"
    and l: "lazy_content (map Lit tag) e = Some g" by blast
  from e obtain u where u: "s = u @ e" "opening_tag tag u" by (auto simp: match_open_iff)
  from lazy_content_Some[OF l] obtain r where r: "e = g @ r" "match_close (map Lit tag) r \<noteq> []"
    by blast
  from r(2) obtain v post where v: "r = v @ post" "closing_tag tag v"
    by (auto simp: match_close_iff)
  from u r(1) v show ?thesis by auto
qed

lemma match_tag_at_first_close:
  assumes gt: "CHR ''>'' \<notin> set tag"
    and s: "s = u @ inner @ v @ post" and u: "opening_tag tag u" and v: "closing_tag tag v"
  shows "\<exists>g v' post'. match_tag_at (map Lit tag) s = Some g \<and> length g \<le> length inner \<and>
           inner @ v @ post = g @ v' @ post' \<and> closing_tag tag v'"
proof -
  let ?t = "map Lit tag" and ?e = "inner @ v @ post"
  have in_open: "?e \<in> set (match_open ?t s)" using s u by (auto simp: match_open_iff)
  have all: "\<forall>e \<in> set (match_open ?t s). e = ?e"
  proof
    fix e assume "e \<in> set (match_open ?t s)"
    then obtain u' where "s = u' @ e" "opening_tag tag u'" by (auto simp: match_open_iff)
    with s u opening_unique(2)[OF gt u, of u' ?e e] show "e = ?e" by simp
  qed
  from in_open have ne: "match_open ?t s \<noteq> []" by auto
  have m: "match_tag_at ?t s = lazy_content ?t ?e" by (rule match_tag_at_unique[OF all ne])
  have c: "match_close ?t (v @ post) \<noteq> []" using v by (auto simp: match_close_iff)
  have "lazy_content ?t ?e \<noteq> None"
  proof
    assume "lazy_content ?t ?e = None"
    from lazy_content_None[OF this, of inner "v @ post"] c show False by simp
  qed
  then obtain g where g: "lazy_content ?t ?e = Some g" by auto
  from lazy_content_Some[OF g] obtain r where r: "?e = g @ r" "match_close ?t r \<noteq> []"
    and mn: "\<forall>g' r'. ?e = g' @ r' \<and> match_close ?t r' \<noteq> [] \<longrightarrow> length g \<le> length g'"
    by blast
  from mn c have le: "length g \<le> length inner" by blast
  from r(2) obtain v' post' where "r = v' @ post'" "closing_tag tag v'"
    by (auto simp: match_close_iff)
  with m g le r(1) show ?thesis by auto
qed

text \<open>
  For a tag name that holds no operator of regular expressions and no \<open>>\<close>, the extractor does
  what the specification says: without an occurrence of the opening tag followed by the
  closing tag it returns the trimmed text; otherwise it returns the trimmed inner text of the
  first occurrence, the leftmost opening tag that is followed by a closing tag, up to the
  nearest closing tag.
\<close>

lemma extract_tag_content_literal:
  assumes lit: "\<forall>c\<in>set tag_name. \<not> re_special c" and gt: "CHR ''>'' \<notin> set tag_name"
  shows "(\<forall>pre u inner v post. s = pre @ u @ inner @ v @ post \<longrightarrow>
            \<not> (opening_tag tag_name u \<and> closing_tag tag_name v))
         \<Longrightarrow> extract_tag_content re_other s tag_name = Inr (strip s)"
    and "s = pre @ u @ inner @ v @ post \<Longrightarrow> opening_tag tag_name u \<Longrightarrow> closing_tag tag_name v
         \<Longrightarrow> (\<forall>pre' u' inner' v' post'.
               s = pre' @ u' @ inner' @ v' @ post' \<and> opening_tag tag_name u' \<and>
               closing_tag tag_name v' \<longrightarrow>
               length pre < length pre' \<or>
               (length pre = length pre' \<and> length inner \<le> length inner'))
         \<Longrightarrow> extract_tag_content re_other s tag_name = Inr (strip inner)"
proof -
  let ?t = "map Lit tag_name"
  note atoms = literal_tag_atoms[OF lit]
  {
    assume no: "\<forall>pre u inner v post. s = pre @ u @ inner @ v @ post \<longrightarrow>
            \<not> (opening_tag tag_name u \<and> closing_tag tag_name v)"
    have "search_tag ?t s = None"
    proof (rule ccontr)
      assume "search_tag ?t s \<noteq> None"
      then obtain g where "search_tag ?t s = Some g" by auto
      from search_tag_Some[OF this] obtain pre0 u0 where p: "s = pre0 @ u0"
        "match_tag_at ?t u0 = Some g" by blast
      from match_tag_at_occurrence[OF p(2)] obtain u v post where
        "u0 = u @ g @ v @ post" "opening_tag tag_name u" "closing_tag tag_name v" by blast
      with p(1) no show False by blast
    qed
    then show "extract_tag_content re_other s tag_name = Inr (strip s)"
      by (simp add: extract_tag_content_def atoms)
  next
    assume s: "s = pre @ u @ inner @ v @ post" and u: "opening_tag tag_name u"
      and v: "closing_tag tag_name v"
      and first: "\<forall>pre' u' inner' v' post'.
               s = pre' @ u' @ inner' @ v' @ post' \<and> opening_tag tag_name u' \<and>
               closing_tag tag_name v' \<longrightarrow>
               length pre < length pre' \<or>
               (length pre = length pre' \<and> length inner \<le> length inner')"
    from match_tag_at_first_close[OF gt refl u v, of inner post]
    obtain g v' post' where m: "match_tag_at ?t (u @ inner @ v @ post) = Some g"
      and le: "length g \<le> length inner" and e: "inner @ v @ post = g @ v' @ post'"
      and v': "closing_tag tag_name v'" by blast
    have "s = pre @ u @ g @ v' @ post'" using s e by simp
    with first u v' have "length inner \<le> length g" by blast
    with le e have gi: "g = inner" by (metis append_eq_append_conv le_antisym)
    have "search_tag ?t s \<noteq> None"
    proof
      assume "search_tag ?t s = None"
      from search_tag_None[OF this s] m show False by simp
    qed
    then obtain g' where sg: "search_tag ?t s = Some g'" by auto
    from search_tag_Some[OF sg] obtain pre0 u0 where p: "s = pre0 @ u0"
      "match_tag_at ?t u0 = Some g'"
      and mn: "\<forall>pre' u'. s = pre' @ u' \<and> length pre' < length pre0 \<longrightarrow>
                 match_tag_at ?t u' = None" by blast
    have le0: "length pre0 \<le> length pre"
    proof (rule ccontr)
      assume "\<not> length pre0 \<le> length pre"
      then have "length pre < length pre0" by simp
      with mn s have "match_tag_at ?t (u @ inner @ v @ post) = None" by blast
      with m show False by simp
    qed
    from match_tag_at_occurrence[OF p(2)] obtain u1 v1 post1 where
      o: "u0 = u1 @ g' @ v1 @ post1" "opening_tag tag_name u1" "closing_tag tag_name v1" by blast
    with p(1) have "s = pre0 @ u1 @ g' @ v1 @ post1" by simp
    with first o(2,3) have "length pre < length pre0 \<or> length pre = length pre0" by blast
    with le0 have "length pre = length pre0" by simp
    with s p(1) have "pre0 = pre" "u0 = u @ inner @ v @ post" by auto
    with p(2) m gi have "g' = inner" by simp
    with sg show "extract_tag_content re_other s tag_name = Inr (strip inner)"
      by (simp add: extract_tag_content_def atoms)
  }
qed

section \<open>Submission and controllers: basic facts\<close>

lemma run_llm_async_busy:
  "llm_running s \<Longrightarrow>
   run_llm_async prompt model_name tag_name w busy_message s = s\<lparr>dialogs := dialogs s @ [busy_notice]\<rparr>"
  by (simp add: run_llm_async_def)

lemma run_llm_async_idle:
  "\<not> llm_running s \<Longrightarrow>
   run_llm_async prompt model_name tag_name w busy_message s =
     s\<lparr>llm_running := True, output_text := (output_text s)(w := []), status_var := busy_message,
       buttons_disabled := True, progress_running := True,
       workers := workers s @ [\<lparr>job_prompt = prompt, job_model = model_name, job_tag = tag_name,
                                job_widget = w, job_task = next_task s\<rparr>],
       next_task := Suc (next_task s)\<rparr>"
  by (simp add: run_llm_async_def set_busy_def Let_def)

lemma get_template_for_type_strip:
  "get_template_for_type tpls (strip v) = (if strip v = [] then None else map_of tpls (strip v))"
  by (simp add: get_template_for_type_def Let_def)

lemma controller_notice:
  assumes "strip type_var = [] \<or> map_of (templates s) (strip type_var) = None"
  shows "\<exists>d. controller type_var input skeleton user_tok model_name tag_name w busy_message s
               = s\<lparr>dialogs := dialogs s @ [d]\<rparr>
             \<and> (d = no_type_notice \<or> d = no_template_notice (strip type_var))"
  using assms by (auto simp: controller_def Let_def get_template_for_type_strip)

section \<open>Task runner\<close>

lemma controller_submit:
  assumes "strip type_var \<noteq> []" "map_of (templates s) (strip type_var) = Some template"
    "template \<noteq> []"
  shows "controller type_var input skeleton user_tok model_name tag_name w busy_message s =
         run_llm_async (build_prompt user_tok skeleton template (strip input) (additional_info s))
           model_name tag_name w busy_message s"
  using assms by (simp add: controller_def Let_def get_template_for_type_strip strip_text_get)

lemma controller_cases:
  "(\<exists>d. controller type_var input skeleton user_tok model_name tag_name w busy_message s
          = s\<lparr>dialogs := dialogs s @ [d]\<rparr>)
   \<or> (\<exists>prompt. controller type_var input skeleton user_tok model_name tag_name w busy_message s
          = run_llm_async prompt model_name tag_name w busy_message s)"
proof (cases "strip type_var = []")
  case True
  then have "controller type_var input skeleton user_tok model_name tag_name w busy_message s
          = s\<lparr>dialogs := dialogs s @ [no_type_notice]\<rparr>" by (simp add: controller_def Let_def)
  then show ?thesis by blast
next
  case False
  show ?thesis
  proof (cases "get_template_for_type (templates s) (strip type_var)")
    case None
    with False have "controller type_var input skeleton user_tok model_name tag_name w busy_message s
          = s\<lparr>dialogs := dialogs s @ [no_template_notice (strip type_var)]\<rparr>"
      by (simp add: controller_def Let_def)
    then show ?thesis by blast
  next
    case (Some template)
    show ?thesis
    proof (cases "template = []")
      case True
      with False Some
      have "controller type_var input skeleton user_tok model_name tag_name w busy_message s
          = s\<lparr>dialogs := dialogs s @ [no_template_notice (strip type_var)]\<rparr>"
        by (simp add: controller_def Let_def)
      then show ?thesis by blast
    next
      case nonempty: False
      with False Some
      have "controller type_var input skeleton user_tok model_name tag_name w busy_message s
          = run_llm_async (build_prompt user_tok skeleton template (strip (text_get input))
              (additional_info s)) model_name tag_name w busy_message s"
        by (simp add: controller_def Let_def)
      then show ?thesis by blast
    qed
  qed
qed

lemma worker_returns_single:
  "workers s = [j] \<Longrightarrow>
   worker_returns env re_other 0 net s =
     s\<lparr>workers := [], after_queue := after_queue s @ [fst (worker env re_other net j)]\<rparr>"
  by (simp add: worker_returns_def)

lemma worker_widget_task:
  "done_widget (fst (worker env re_other net j)) = job_widget j"
  "done_task (fst (worker env re_other net j)) = job_task j"
  by (auto simp: worker_def Let_def split: prod.splits sum.splits)

lemma on_done_fields:
  "llm_running (on_done c s) = False"
  "buttons_disabled (on_done c s) = False"
  "progress_running (on_done c s) = False"
  "status_var (on_done c s) = ''Pronto.''"
  "workers (on_done c s) = workers s"
  "after_queue (on_done c s) = after_queue s"
  "next_task (on_done c s) = next_task s"
  "completed (on_done c s) = completed s @ [done_task c]"
  "clipboard (on_done c s) = clipboard s"
  by (simp_all add: on_done_def set_busy_def Let_def)

lemma on_done_output:
  "output_text (on_done c s) w =
     (if \<not> truthy (error c) \<and> w = done_widget c then llm_clean c else output_text s w)"
  by (simp add: on_done_def set_busy_def Let_def)

lemma on_done_dialogs:
  "dialogs (on_done c s) =
     (if truthy (error c) then dialogs s @ [ShowError ''Erro ao chamar LLM'' (the (error c))]
      else dialogs s)"
  by (simp add: on_done_def set_busy_def Let_def)

lemma runner_inv_dialogs [simp]: "runner_inv (s\<lparr>dialogs := d\<rparr>) = runner_inv s"
  by (simp add: runner_inv_def in_flight_def)

lemma runner_inv_idle:
  assumes "runner_inv s" "\<not> llm_running s"
  shows "workers s = []" "after_queue s = []" "set (completed s) = {..<next_task s}"
    "distinct (completed s)"
  using assms by (auto simp: runner_inv_def in_flight_def)

lemma runner_inv_run_llm_async:
  assumes "runner_inv s"
  shows "runner_inv (run_llm_async prompt model_name tag_name w busy_message s)"
proof (cases "llm_running s")
  case True
  then show ?thesis using assms by (simp add: run_llm_async_busy)
next
  case False
  note idle = runner_inv_idle[OF assms False]
  have "next_task s \<notin> set (completed s)" using idle(3) by simp
  then show ?thesis
    using idle False by (auto simp: run_llm_async_idle runner_inv_def in_flight_def lessThan_Suc)
qed

lemma runner_inv_controller:
  assumes "runner_inv s"
  shows "runner_inv (controller type_var input skeleton user_tok model_name tag_name w busy_message s)"
  using controller_cases[of type_var input skeleton user_tok model_name tag_name w busy_message s]
    assms
  by (auto simp: runner_inv_run_llm_async)

lemma runner_inv_single:
  assumes "runner_inv s" "i < length (workers s)"
  shows "i = 0" "\<exists>j. workers s = [j]" "after_queue s = []"
proof -
  from assms have l: "length (workers s) + length (after_queue s) \<le> 1"
    by (simp add: runner_inv_def in_flight_def)
  with assms(2) show "i = 0" by simp
  from l assms(2) have "length (workers s) = 1" by simp
  then show "\<exists>j. workers s = [j]" by (cases "workers s") auto
  from l assms(2) have "length (after_queue s) = 0" by linarith
  then show "after_queue s = []" by simp
qed

lemma runner_inv_worker_returns:
  assumes "runner_inv s"
  shows "runner_inv (worker_returns env re_other i net s)"
proof (cases "i < length (workers s)")
  case False
  then show ?thesis using assms by (simp add: worker_returns_def)
next
  case True
  from runner_inv_single[OF assms True] obtain j where "i = 0" "workers s = [j]"
    "after_queue s = []" by blast
  then show ?thesis
    using assms by (simp add: worker_returns_single runner_inv_def in_flight_def worker_widget_task)
qed

lemma runner_inv_scheduled:
  assumes "runner_inv s" "after_queue s = c # cs"
  shows "workers s = []" "cs = []" "llm_running s"
  using assms by (simp_all add: runner_inv_def in_flight_def)

lemma runner_inv_run_scheduled:
  assumes "runner_inv s"
  shows "runner_inv (run_scheduled s)"
proof (cases "after_queue s")
  case Nil
  then show ?thesis using assms by (simp add: run_scheduled_def)
next
  case (Cons c cs)
  note q = runner_inv_scheduled[OF assms Cons]
  show ?thesis
    using assms Cons q
    by (auto simp: run_scheduled_def runner_inv_def in_flight_def on_done_fields)
qed

lemma runner_inv_copy: "runner_inv s \<Longrightarrow> runner_inv (copy_to_clipboard w titulo s)"
  by (simp add: copy_to_clipboard_def Let_def runner_inv_def in_flight_def)

lemma runner_inv_step:
  assumes "runner_inv s"
  shows "runner_inv (step env re_other e s)"
proof (cases e)
  case Generate_creation
  then show ?thesis using assms by (simp add: generate_creation_prompt_def runner_inv_controller)
next
  case Generate_info_validation
  then show ?thesis
    using assms by (simp add: generate_info_validation_prompt_def runner_inv_controller)
next
  case Generate_analisys
  then show ?thesis using assms by (simp add: generate_analisys_prompt_def runner_inv_controller)
next
  case Copy_create
  then show ?thesis using assms by (simp add: copy_prompt_create_def runner_inv_copy)
next
  case Copy_analyse
  then show ?thesis using assms by (simp add: copy_prompt_analyse_def runner_inv_copy)
next
  case Copy_info
  then show ?thesis using assms by (simp add: copy_prompt_info_def runner_inv_copy)
next
  case (Load_info picked read)
  then show ?thesis
    using assms
    by (auto simp: load_additional_info_def runner_inv_def in_flight_def split: sum.splits)
next
  case (Select_type w v)
  then show ?thesis using assms by (cases w) (simp_all add: runner_inv_def in_flight_def)
next
  case (Edit_input w v)
  then show ?thesis using assms by (cases w) (simp_all add: runner_inv_def in_flight_def)
next
  case (Edit_output w v)
  then show ?thesis using assms by (simp add: runner_inv_def in_flight_def)
next
  case (Worker_returns i net)
  then show ?thesis using assms by (simp add: runner_inv_worker_returns)
next
  case Run_scheduled
  then show ?thesis using assms by (simp add: runner_inv_run_scheduled)
qed

lemma reachable_runner_inv: "reachable env re_other s \<Longrightarrow> runner_inv s"
proof (induction rule: reachable.induct)
  case (reach_init s)
  then show ?case by (simp add: initial_def runner_inv_def in_flight_def)
next
  case (reach_step s e)
  then show ?case by (simp add: runner_inv_step)
qed

section \<open>The example application\<close>

lemma example_app_fields:
  "llm_running example_app = False"
  "templates example_app = [(''bug'', ''Title:'')]"
  "additional_info example_app = []"
  "creation_model example_app = ''model-c''"
  "creation_prompt example_app =
     ''{Card_modelo}|{informacoes_fornecidas_pelo_usuario}|{informacoes_adicionais}''"
  "card_type_var example_app = ''bug''"
  "user_input_text example_app = []"
  "output_text example_app = (\<lambda>w. [])"
  "dialogs example_app = []"
  "workers example_app = []"
  "after_queue example_app = []"
  "next_task example_app = 0"
  "completed example_app = []"
  "clipboard example_app = []"
  by (simp_all add: example_app_def)

lemma example_initial: "initial example_app"
  by (simp add: initial_def example_app_def)

lemma example_prompt:
  "build_prompt tok_user_info
     ''{Card_modelo}|{informacoes_fornecidas_pelo_usuario}|{informacoes_adicionais}''
     ''Title:'' [] [] = ''Title:||''"
  by (simp add: build_prompt_def replace_def apply_common_replacements_def
      tok_card_modelo_def tok_user_info_def tok_informacoes_adicionais_def replace_scan.simps(2))

lemma example_generate:
  assumes "templates s = templates example_app" "card_type_var s = ''bug''"
    "user_input_text s = []" "additional_info s = []"
    "creation_prompt s = creation_prompt example_app" "creation_model s = ''model-c''"
  shows "generate_creation_prompt s =
         run_llm_async ''Title:||'' ''model-c'' ''card'' Output_create ''Gerando card com o LLM...'' s"
proof -
  have t: "strip ''bug'' = ''bug''" by (simp add: strip_def is_space_def)
  show ?thesis
    unfolding generate_creation_prompt_def
    by (subst controller_submit[where template = "''Title:''"])
       (simp_all add: assms t example_app_fields example_prompt)
qed

lemma example_submitted:
  "generate_creation_prompt example_app =
     example_app\<lparr>llm_running := True, output_text := (output_text example_app)(Output_create := []),
       status_var := ''Gerando card com o LLM...'', buttons_disabled := True,
       progress_running := True, workers := [example_job 0], next_task := Suc 0\<rparr>"
  by (simp add: example_generate example_app_fields run_llm_async_idle example_job_def)






section \<open>Controllers and clipboard: the claims\<close>

text \<open>
  Claim C9.  In each of the three controllers, when the selected card type is blank or no
  template has that name, the handler only shows one notice (the warning that no type is
  selected, or the error that the template is not found): the state is otherwise the same,
  so no prompt is built, no task is submitted, and the busy flag, the worker list and the
  output areas are untouched.
\<close>

theorem controllers_notice_without_template:
  "(strip (card_type_var s) = [] \<or> map_of (templates s) (strip (card_type_var s)) = None \<longrightarrow>
      (\<exists>d. generate_creation_prompt s = s\<lparr>dialogs := dialogs s @ [d]\<rparr>
          \<and> (d = no_type_notice \<or> d = no_template_notice (strip (card_type_var s)))))
   \<and> (strip (card_type_info_var s) = [] \<or>
        map_of (templates s) (strip (card_type_info_var s)) = None \<longrightarrow>
      (\<exists>d. generate_info_validation_prompt s = s\<lparr>dialogs := dialogs s @ [d]\<rparr>
          \<and> (d = no_type_notice \<or> d = no_template_notice (strip (card_type_info_var s)))))
   \<and> (strip (card_type_analyse_var s) = [] \<or>
        map_of (templates s) (strip (card_type_analyse_var s)) = None \<longrightarrow>
      (\<exists>d. generate_analisys_prompt s = s\<lparr>dialogs := dialogs s @ [d]\<rparr>
          \<and> (d = no_type_notice \<or> d = no_template_notice (strip (card_type_analyse_var s)))))"
  unfolding generate_creation_prompt_def generate_info_validation_prompt_def
    generate_analisys_prompt_def
  by (intro conjI impI controller_notice)

text \<open>
  C9 on the example application with the card type \<open>chore\<close>, which has no template, chosen in
  the creation tab, and with a blank card type in the analysis tab.
\<close>

theorem controllers_notice_without_template_witness:
  "(\<exists>d. generate_creation_prompt (example_app\<lparr>card_type_var := ''chore''\<rparr>)
          = example_app\<lparr>card_type_var := ''chore'', dialogs := [d]\<rparr>)
   \<and> (\<exists>d. generate_analisys_prompt (example_app\<lparr>card_type_analyse_var := '' ''\<rparr>)
          = example_app\<lparr>card_type_analyse_var := '' '', dialogs := [d]\<rparr>)"
proof -
  have s1: "strip ''chore'' = ''chore''" and s2: "strip '' '' = []"
    by (simp_all add: strip_def is_space_def)
  have a: "\<exists>d. generate_creation_prompt (example_app\<lparr>card_type_var := ''chore''\<rparr>)
          = example_app\<lparr>card_type_var := ''chore'', dialogs := [d]\<rparr>"
    using controllers_notice_without_template[of "example_app\<lparr>card_type_var := ''chore''\<rparr>",
        THEN conjunct1]
    by (auto simp: s1 example_app_def)
  have b: "\<exists>d. generate_analisys_prompt (example_app\<lparr>card_type_analyse_var := '' ''\<rparr>)
          = example_app\<lparr>card_type_analyse_var := '' '', dialogs := [d]\<rparr>"
    using controllers_notice_without_template[of "example_app\<lparr>card_type_analyse_var := '' ''\<rparr>",
        THEN conjunct2, THEN conjunct2]
    by (auto simp: s2 example_app_def)
  from a b show ?thesis by blast
qed

text \<open>
  Claim C8, as amended.  The copy action reads the output area and trims it.  When nothing is
  left it only shows the notice and the clipboard keeps its content; otherwise the clipboard
  receives the trimmed text, which is the output text itself when that text has no leading
  or trailing whitespace.
\<close>

theorem copy_to_clipboard_trimmed:
  "(strip (output_text s w) = [] \<longrightarrow>
      copy_to_clipboard w titulo s = s\<lparr>dialogs := dialogs s @ [nothing_to_copy_notice]\<rparr>)
   \<and> (strip (output_text s w) \<noteq> [] \<longrightarrow>
      copy_to_clipboard w titulo s =
        s\<lparr>clipboard := strip (output_text s w), dialogs := dialogs s @ [copied_notice titulo]\<rparr>)
   \<and> (output_text s w \<noteq> [] \<and> strip (output_text s w) = output_text s w \<longrightarrow>
      clipboard (copy_to_clipboard w titulo s) = output_text s w)"
  by (auto simp: copy_to_clipboard_def Let_def strip_text_get)

text \<open>
  C8 (amended) on the example application: an empty output area, and an output area holding
  a trimmed text.
\<close>

theorem copy_to_clipboard_trimmed_witness:
  "copy_prompt_create example_app = example_app\<lparr>dialogs := [nothing_to_copy_notice]\<rparr>
   \<and> clipboard (copy_prompt_create
        (example_app\<lparr>output_text := (output_text example_app)(Output_create := ''Bug: x'')\<rparr>))
      = ''Bug: x''"
proof -
  let ?s = "example_app\<lparr>output_text := (output_text example_app)(Output_create := ''Bug: x'')\<rparr>"
  have t: "strip ''Bug: x'' = ''Bug: x''" by (simp add: strip_def is_space_def)
  have a: "copy_prompt_create example_app = example_app\<lparr>dialogs := [nothing_to_copy_notice]\<rparr>"
    using copy_to_clipboard_trimmed[of example_app Output_create "''Card''", THEN conjunct1]
    by (simp add: copy_prompt_create_def example_app_def)
  have b: "clipboard (copy_prompt_create ?s) = ''Bug: x''"
    using copy_to_clipboard_trimmed[of ?s Output_create "''Card''", THEN conjunct2, THEN conjunct2]
    by (simp add: copy_prompt_create_def t)
  from a b show ?thesis by blast
qed

text \<open>
  Claim C8 as stated fails: the user types a blank and a letter into the output area of the
  creation tab, which is an ordinary text widget, and copies; the text is not copied
  verbatim, the clipboard receives it without the blank.
\<close>

theorem copy_not_verbatim_counterexample:
  "reachable example_env (\<lambda>t n. Inr t)
     (step example_env (\<lambda>t n. Inr t) (Edit_output Output_create '' a'') example_app)
   \<and> output_text
       (step example_env (\<lambda>t n. Inr t) (Edit_output Output_create '' a'') example_app)
       Output_create = '' a''
   \<and> clipboard (copy_prompt_create
       (step example_env (\<lambda>t n. Inr t) (Edit_output Output_create '' a'') example_app)) = ''a''"
proof -
  have "reachable example_env (\<lambda>t n. Inr t)
     (step example_env (\<lambda>t n. Inr t) (Edit_output Output_create '' a'') example_app)"
    by (intro reach_step reach_init example_initial)
  then show ?thesis
    by (simp add: copy_prompt_create_def copy_to_clipboard_def text_get_def strip_def is_space_def
        Let_def)
qed

section \<open>Task runner: the claims\<close>

lemma worker_returns_dialogs:
  "worker_returns env re_other i net (s\<lparr>dialogs := d\<rparr>) =
   (worker_returns env re_other i net s)\<lparr>dialogs := d\<rparr>"
  by (simp add: worker_returns_def)

lemma same_but_dialogs_worker_returns:
  "same_but_dialogs (worker_returns env re_other i net s)
     (worker_returns env re_other i net (s\<lparr>dialogs := d\<rparr>))"
  by (simp add: same_but_dialogs_def worker_returns_dialogs)

lemma same_but_dialogs_run_scheduled:
  "same_but_dialogs (run_scheduled s) (run_scheduled (s\<lparr>dialogs := d\<rparr>))"
  by (cases "after_queue s")
     (simp_all add: same_but_dialogs_def run_scheduled_def on_done_def set_busy_def Let_def)

text \<open>
  Claim C5.  In every state that the application can reach, at most one task is in flight
  (a running worker or a scheduled completion), and one is in flight exactly when the busy
  flag is set.  A submission made while the flag is set only shows the busy notice: no worker
  is started, and the worker's return and the scheduled completion then lead to the same
  state as without that submission, the message boxes apart.  A submission starts a worker
  only when the flag is clear, and then nothing is in flight.
\<close>

theorem one_call_in_flight:
  assumes "reachable env re_other s"
  shows "length (workers s) + length (after_queue s) \<le> 1
       \<and> (llm_running s \<longleftrightarrow> workers s \<noteq> [] \<or> after_queue s \<noteq> [])
       \<and> (llm_running s \<longrightarrow>
            run_llm_async prompt model_name tag_name w busy_message s
              = s\<lparr>dialogs := dialogs s @ [busy_notice]\<rparr>
            \<and> (\<forall>i net. same_but_dialogs (worker_returns env re_other i net s)
                  (worker_returns env re_other i net
                     (run_llm_async prompt model_name tag_name w busy_message s)))
            \<and> same_but_dialogs (run_scheduled s)
                  (run_scheduled (run_llm_async prompt model_name tag_name w busy_message s)))
       \<and> (workers (run_llm_async prompt model_name tag_name w busy_message s) \<noteq> workers s \<longrightarrow>
            \<not> llm_running s \<and> workers s = [] \<and> after_queue s = [])"
proof -
  have inv: "runner_inv s" using assms by (rule reachable_runner_inv)
  have 1: "length (workers s) + length (after_queue s) \<le> 1"
    using inv by (simp add: runner_inv_def in_flight_def)
  have 2: "llm_running s \<longleftrightarrow> workers s \<noteq> [] \<or> after_queue s \<noteq> []"
    using inv by (simp add: runner_inv_def in_flight_def)
  have 3: "run_llm_async prompt model_name tag_name w busy_message s
              = s\<lparr>dialogs := dialogs s @ [busy_notice]\<rparr>
            \<and> (\<forall>i net. same_but_dialogs (worker_returns env re_other i net s)
                  (worker_returns env re_other i net
                     (run_llm_async prompt model_name tag_name w busy_message s)))
            \<and> same_but_dialogs (run_scheduled s)
                  (run_scheduled (run_llm_async prompt model_name tag_name w busy_message s))"
    if "llm_running s"
    using that
    by (simp add: run_llm_async_busy same_but_dialogs_worker_returns same_but_dialogs_run_scheduled)
  have 4: "\<not> llm_running s \<and> workers s = [] \<and> after_queue s = []"
    if "workers (run_llm_async prompt model_name tag_name w busy_message s) \<noteq> workers s"
  proof -
    from that have "\<not> llm_running s" by (auto simp: run_llm_async_busy)
    with 2 show ?thesis by simp
  qed
  from 1 2 3 4 show ?thesis by blast
qed

text \<open>
  C5 on the example application after the creation handler has submitted a task: the state
  is reachable, the flag is set, and a second submission only adds the busy notice.
\<close>

theorem one_call_in_flight_witness:
  "reachable example_env (\<lambda>t n. Inr t) (generate_creation_prompt example_app)
   \<and> llm_running (generate_creation_prompt example_app)
   \<and> length (workers (generate_creation_prompt example_app))
       + length (after_queue (generate_creation_prompt example_app)) \<le> 1
   \<and> generate_creation_prompt (generate_creation_prompt example_app)
       = (generate_creation_prompt example_app)\<lparr>dialogs := [busy_notice]\<rparr>"
proof -
  let ?s = "generate_creation_prompt example_app"
  have r: "reachable example_env (\<lambda>t n. Inr t) ?s"
    using reach_step[OF reach_init[OF example_initial], of example_env "\<lambda>t n. Inr t"
        Generate_creation] by simp
  have b: "llm_running ?s" by (simp add: example_submitted)
  have g: "generate_creation_prompt ?s =
     run_llm_async ''Title:||'' ''model-c'' ''card'' Output_create ''Gerando card com o LLM...'' ?s"
    by (rule example_generate) (simp_all add: example_submitted example_app_fields)
  have d: "dialogs ?s = []" by (simp add: example_submitted example_app_fields)
  note th = one_call_in_flight[OF r, of "''Title:||''" "''model-c''" "''card''" Output_create
      "''Gerando card com o LLM...''"]
  from th have "length (workers ?s) + length (after_queue ?s) \<le> 1" by (rule conjunct1)
  moreover from th b have "run_llm_async ''Title:||'' ''model-c'' ''card'' Output_create
      ''Gerando card com o LLM...'' ?s = ?s\<lparr>dialogs := dialogs ?s @ [busy_notice]\<rparr>" by blast
  ultimately show ?thesis using r b g d by simp
qed

text \<open>
  Claim C6.  \<open>on_done\<close> clears the busy flag whatever the completion holds, an error or a
  result.  In every reachable state each task submitted so far is either in flight or
  completed, never both, and no task is completed twice; a running worker can return and its
  completion can run, which completes exactly that task.  After a scheduled completion has
  run nothing is in flight, the flag is clear, and the next submission starts a worker.
\<close>

theorem completion_once_and_idle:
  assumes "reachable env re_other s"
  shows "\<not> llm_running (on_done c s0)
       \<and> distinct (completed s)
       \<and> set (in_flight s) \<inter> set (completed s) = {}
       \<and> set (in_flight s) \<union> set (completed s) = {..<next_task s}
       \<and> (\<forall>j net. workers s = [j] \<longrightarrow>
             after_queue (worker_returns env re_other 0 net s) = [fst (worker env re_other net j)]
             \<and> completed (run_scheduled (worker_returns env re_other 0 net s))
                 = completed s @ [job_task j])
       \<and> (after_queue s \<noteq> [] \<longrightarrow>
             \<not> llm_running (run_scheduled s)
             \<and> workers (run_scheduled s) = [] \<and> after_queue (run_scheduled s) = []
             \<and> completed (run_scheduled s) = completed s @ [done_task (hd (after_queue s))]
             \<and> workers (run_llm_async prompt model_name tag_name w busy_message (run_scheduled s))
                 = [\<lparr>job_prompt = prompt, job_model = model_name, job_tag = tag_name,
                     job_widget = w, job_task = next_task s\<rparr>])"
proof -
  have inv: "runner_inv s" using assms by (rule reachable_runner_inv)
  have 1: "\<not> llm_running (on_done c s0)" by (simp add: on_done_fields)
  have 2: "distinct (completed s)" "set (in_flight s) \<inter> set (completed s) = {}"
    "set (in_flight s) \<union> set (completed s) = {..<next_task s}"
    using inv by (auto simp: runner_inv_def)
  have 3: "after_queue (worker_returns env re_other 0 net s) = [fst (worker env re_other net j)]
             \<and> completed (run_scheduled (worker_returns env re_other 0 net s))
                 = completed s @ [job_task j]"
    if "workers s = [j]" for j net
  proof -
    from that have "0 < length (workers s)" by simp
    from runner_inv_single(3)[OF inv this] have q: "after_queue s = []" .
    show ?thesis
      using that q
      by (simp add: worker_returns_single run_scheduled_def on_done_fields worker_widget_task)
  qed
  have 4: "\<not> llm_running (run_scheduled s)
             \<and> workers (run_scheduled s) = [] \<and> after_queue (run_scheduled s) = []
             \<and> completed (run_scheduled s) = completed s @ [done_task (hd (after_queue s))]
             \<and> workers (run_llm_async prompt model_name tag_name w busy_message (run_scheduled s))
                 = [\<lparr>job_prompt = prompt, job_model = model_name, job_tag = tag_name,
                     job_widget = w, job_task = next_task s\<rparr>]"
    if "after_queue s \<noteq> []"
  proof -
    from that obtain c' cs where q: "after_queue s = c' # cs" by (cases "after_queue s") auto
    note f = runner_inv_scheduled[OF inv q]
    have rs: "run_scheduled s = on_done c' (s\<lparr>after_queue := []\<rparr>)"
      using q f by (simp add: run_scheduled_def)
    show ?thesis
      using q f by (simp add: rs on_done_fields run_llm_async_idle)
  qed
  from 1 2 3 4 show ?thesis by blast
qed

text \<open>
  C6 on the example application: after the submitted task's worker has returned with a
  network failure, the scheduled completion is run; the flag is clear and task 0 is the one
  completed task.
\<close>

theorem completion_once_and_idle_witness:
  "reachable example_env (\<lambda>t n. Inr t)
     (worker_returns example_env (\<lambda>t n. Inr t) 0 (net_raises (RequestException ''timed out''))
        (generate_creation_prompt example_app))
   \<and> \<not> llm_running (run_scheduled
        (worker_returns example_env (\<lambda>t n. Inr t) 0 (net_raises (RequestException ''timed out''))
           (generate_creation_prompt example_app)))
   \<and> completed (run_scheduled
        (worker_returns example_env (\<lambda>t n. Inr t) 0 (net_raises (RequestException ''timed out''))
           (generate_creation_prompt example_app))) = [0]"
proof -
  let ?net = "net_raises (RequestException ''timed out'')"
  let ?s1 = "generate_creation_prompt example_app"
  let ?s2 = "worker_returns example_env (\<lambda>t n. Inr t) 0 ?net ?s1"
  have r1: "reachable example_env (\<lambda>t n. Inr t) ?s1"
    using reach_step[OF reach_init[OF example_initial], of example_env "\<lambda>t n. Inr t"
        Generate_creation] by simp
  have r2: "reachable example_env (\<lambda>t n. Inr t) ?s2"
    using reach_step[OF r1, of "Worker_returns 0 ?net"] by simp
  have w: "workers ?s1 = [example_job 0]" "completed ?s1 = []" "after_queue ?s1 = []"
    by (simp_all add: example_submitted example_app_fields)
  have q: "after_queue ?s2 \<noteq> []" "after_queue ?s2 =
      [fst (worker example_env (\<lambda>t n. Inr t) ?net (example_job 0))]" "completed ?s2 = []"
    using w by (simp_all add: worker_returns_single)
  note th = completion_once_and_idle[OF r2, of _ _ "''p''" "''m''" "''t''" Output_create "''b''"]
  from th q(1) have "\<not> llm_running (run_scheduled ?s2)
      \<and> completed (run_scheduled ?s2) = completed ?s2 @ [done_task (hd (after_queue ?s2))]"
    by blast
  then show ?thesis using r2 q by (simp add: worker_widget_task example_job_def)
qed

section \<open>Output areas and the outcome of a task\<close>



lemma on_done_output_fun:
  "output_text (on_done c s) =
     (if truthy (error c) then output_text s else (output_text s)(done_widget c := llm_clean c))"
  by (simp add: on_done_def set_busy_def Let_def)

lemma task_cycle:
  assumes "workers s = [j]" "after_queue s = []"
  shows "output_text (run_scheduled (worker_returns env re_other 0 net s)) =
           (if truthy (error (fst (worker env re_other net j))) then output_text s
            else (output_text s)(job_widget j := llm_clean (fst (worker env re_other net j))))"
    and "dialogs (run_scheduled (worker_returns env re_other 0 net s)) =
           (if truthy (error (fst (worker env re_other net j)))
            then dialogs s @ [ShowError ''Erro ao chamar LLM''
                                (the (error (fst (worker env re_other net j))))]
            else dialogs s)"
  using assms
  by (simp_all add: worker_returns_single run_scheduled_def on_done_output_fun on_done_dialogs
      worker_widget_task)






text \<open>
  What the completion of a task does, by the truth value of the error text: an error dialog
  with that text and no change of the output areas, or the result written to the task's
  output area and no dialog.
\<close>

lemma completion_outcomes:
  "(truthy (error c) \<longrightarrow>
      dialogs (on_done c s) = dialogs s @ [ShowError ''Erro ao chamar LLM'' (the (error c))]
      \<and> output_text (on_done c s) = output_text s)
   \<and> (\<not> truthy (error c) \<longrightarrow>
      dialogs (on_done c s) = dialogs s
      \<and> output_text (on_done c s) = (output_text s)(done_widget c := llm_clean c))"
  by (simp add: on_done_dialogs on_done_output_fun)

text \<open>
  Claim C10 on the failing input: the call of the submitted task raises an exception whose
  message is empty.  The worker catches it, but \<open>on_done\<close> tests the truth value of the error
  text and takes the empty text for no error: no error dialog is shown and the empty result
  is written to the output area.
\<close>

theorem empty_error_message_shows_no_dialog:
  "fst (worker example_env (\<lambda>t n. Inr t) (net_raises (RequestException [])) (example_job 0)) =
     \<lparr>error = Some [], llm_clean = [], done_widget = Output_create, done_task = 0\<rparr>
   \<and> dialogs
       (run_scheduled
         (worker_returns example_env (\<lambda>t n. Inr t) 0 (net_raises (RequestException []))
           (generate_creation_prompt example_app))) = []
   \<and> output_text
       (run_scheduled
         (worker_returns example_env (\<lambda>t n. Inr t) 0 (net_raises (RequestException []))
           (generate_creation_prompt example_app))) Output_create = []"
proof -
  let ?net = "net_raises (RequestException [])"
  let ?s = "generate_creation_prompt example_app"
  have w: "workers ?s = [example_job 0]" "after_queue ?s = []" "dialogs ?s = []"
    "output_text ?s Output_create = []"
    by (simp_all add: example_submitted example_app_fields)
  have c: "fst (worker example_env (\<lambda>t n. Inr t) ?net (example_job 0)) =
         \<lparr>error = Some [], llm_clean = [], done_widget = Output_create, done_task = 0\<rparr>"
    by (simp add: worker_raises[OF example_key] example_job_def)
  have 2: "dialogs (run_scheduled (worker_returns example_env (\<lambda>t n. Inr t) 0 ?net ?s)) = []"
    by (simp only: task_cycle(2)[OF w(1,2)] c) (simp add: truthy_def w)
  have 3: "output_text (run_scheduled (worker_returns example_env (\<lambda>t n. Inr t) 0 ?net ?s))
             Output_create = []"
    by (simp only: task_cycle(1)[OF w(1,2)] c) (simp add: truthy_def w)
  from c 2 3 show ?thesis by (intro conjI)
qed

end
